theory Spec2Isabelle
  imports Complex_Main "HOL-Library.Multiset" "HOL-Library.Log_Nat"
begin

section \<open>Python and numpy values\<close>

text \<open>
  The attribute scripts compute with numpy arrays of 64-bit floats. The arrays are
  modelled in exact arithmetic: an element is a \<^typ>\<open>real\<close>, so sums may be reordered
  and products are exact. This reading agrees with the program up to rounding as long as
  no intermediate value leaves the range of binary64. Outside that range the program
  overflows or underflows where the model does not, and the statements about the kernel
  set are restricted to the parameters inside it (\<open>weights_in_range\<close> below). The
  line that computes the mixing constant is plain Python arithmetic on scalars; it is
  modelled twice, in exact arithmetic and in binary64 arithmetic. Python integers are
  \<^typ>\<open>int\<close>, array extents are \<^typ>\<open>nat\<close>.

  An exception of the source is a value of \<open>error\<close>. \<open>FloatingPointError\<close> marks
  the place where numpy divides an array by the float zero: numpy then warns and
  carries on with \<open>inf\<close> or \<open>nan\<close>, which no real number stands for, so the
  model stops there.
\<close>

datatype error =
  IndexError | ValueError | ZeroDivisionError | OverflowError | LinAlgError | FloatingPointError

definition and_then :: "error + 'a \<Rightarrow> ('a \<Rightarrow> error + 'b) \<Rightarrow> error + 'b" where
  "and_then m f = (case m of Inl e \<Rightarrow> Inl e | Inr x \<Rightarrow> f x)"

text \<open>A \<open>for\<close> loop over a list of indices that threads a state and stops at the first exception.\<close>

fun for_loop :: "'i list \<Rightarrow> ('i \<Rightarrow> 's \<Rightarrow> error + 's) \<Rightarrow> 's \<Rightarrow> error + 's" where
  "for_loop [] body s = Inr s"
| "for_loop (i # is) body s = and_then (body i s) (for_loop is body)"

text \<open>\<open>range(a, b)\<close> of Python: the integers from \<open>a\<close> up to, not including, \<open>b\<close>.\<close>

definition py_range :: "int \<Rightarrow> int \<Rightarrow> int list" where
  "py_range a b = [a..b - 1]"

text \<open>
  An index into an axis of extent \<open>n\<close>: a negative index counts from the end, anything
  outside \<open>-n \<le> i < n\<close> raises IndexError.
\<close>

definition py_index :: "nat \<Rightarrow> int \<Rightarrow> error + nat" where
  "py_index n i =
     (if 0 \<le> i \<and> i < int n then Inr (nat i)
      else if - int n \<le> i \<and> i < 0 then Inr (nat (i + int n))
      else Inl IndexError)"

text \<open>A three-dimensional \<open>ndarray\<close>: its \<open>shape\<close> and the element at each position inside it.\<close>

record ndarray3 =
  shape3 :: "nat \<times> nat \<times> nat"
  data3 :: "nat \<Rightarrow> nat \<Rightarrow> nat \<Rightarrow> real"

definition getitem3 :: "ndarray3 \<Rightarrow> int \<Rightarrow> int \<Rightarrow> int \<Rightarrow> error + real" where
  "getitem3 a i j k =
     (case shape3 a of (X, Y, Z) \<Rightarrow>
        and_then (py_index X i) (\<lambda>i'.
        and_then (py_index Y j) (\<lambda>j'.
        and_then (py_index Z k) (\<lambda>k'. Inr (data3 a i' j' k')))))"

text \<open>\<open>result[i] = v\<close> on a one-dimensional array.\<close>

definition setitem :: "real list \<Rightarrow> int \<Rightarrow> real \<Rightarrow> error + real list" where
  "setitem xs i v = and_then (py_index (length xs) i) (\<lambda>i'. Inr (xs[i' := v]))"

section \<open>The centre-trace convolution\<close>

text \<open>
  \<open>sconvolve\<close> of \<open>ex_lpa_coef.py\<close>. The source hands the function to the numba
  compiler; the model gives the body the meaning it has in Python, where an index beyond
  an axis raises IndexError and a negative index counts from the end. The body of the
  innermost loop reads the filter first and the data second, as Python evaluates the
  product. \<open>sconvolve_range\<close> is the range of the outermost loop, \<open>sconvolve_term\<close> the
  body of the innermost one.
\<close>

definition sconvolve_term :: "ndarray3 \<Rightarrow> ndarray3 \<Rightarrow> int \<Rightarrow> int \<Rightarrow> int \<Rightarrow> int \<Rightarrow> real \<Rightarrow> error + real" where
  "sconvolve_term arr filt i ii jj kk num =
     (case shape3 arr of (X, Y, Z) \<Rightarrow> case shape3 filt of (Xf, Yf, Zf) \<Rightarrow>
        let X2 = int X div 2; Y2 = int Y div 2;
            Xf2 = int Xf div 2; Yf2 = int Yf div 2; Zf2 = int Zf div 2
        in and_then (getitem3 filt (int Xf - 1 - ii) (int Yf - 1 - jj) (int Zf - 1 - kk)) (\<lambda>f.
           and_then (getitem3 arr (X2 - Xf2 + ii) (Y2 - Yf2 + jj) (i - Zf2 + kk)) (\<lambda>a.
           Inr (num + f * a))))"

definition sconvolve_range :: "ndarray3 \<Rightarrow> ndarray3 \<Rightarrow> int list" where
  "sconvolve_range arr filt =
     (case shape3 arr of (X, Y, Z) \<Rightarrow> case shape3 filt of (Xf, Yf, Zf) \<Rightarrow>
        py_range (int Zf div 2) (int Z - int Zf div 2))"

definition sconvolve :: "ndarray3 \<Rightarrow> ndarray3 \<Rightarrow> error + real list" where
  "sconvolve arr filt =
     (case shape3 arr of (X, Y, Z) \<Rightarrow> case shape3 filt of (Xf, Yf, Zf) \<Rightarrow>
        for_loop (sconvolve_range arr filt)
          (\<lambda>i result.
             and_then
               (for_loop (py_range 0 (int Xf)) (\<lambda>ii.
                  for_loop (py_range 0 (int Yf)) (\<lambda>jj.
                    for_loop (py_range 0 (int Zf)) (\<lambda>kk.
                      sconvolve_term arr filt i ii jj kk))) 0)
               (\<lambda>num. setitem result i num))
          (replicate Z 0))"

text \<open>
  The sum the convolution is meant to compute at output position \<open>z\<close>: the filter read
  backwards against the data around the central trace of the block.
\<close>

definition window_sum :: "ndarray3 \<Rightarrow> ndarray3 \<Rightarrow> nat \<Rightarrow> real" where
  "window_sum arr filt z =
     (case shape3 arr of (X, Y, Z) \<Rightarrow> case shape3 filt of (Xf, Yf, Zf) \<Rightarrow>
        (\<Sum>ii<Xf. \<Sum>jj<Yf. \<Sum>kk<Zf.
           data3 filt (Xf - 1 - ii) (Yf - 1 - jj) (Zf - 1 - kk) *
           data3 arr (X div 2 - Xf div 2 + ii) (Y div 2 - Yf div 2 + jj) (z - Zf div 2 + kk)))"

text \<open>
  \<open>sconvolve\<close> of \<open>extlib.py\<close>, which \<open>ex_lpa_eigenvals.py\<close> calls as \<open>xl.sconvolve\<close>.
\<close>

definition xl_sconvolve :: "ndarray3 \<Rightarrow> ndarray3 \<Rightarrow> error + real list" where
  "xl_sconvolve arr filt =
     (case shape3 arr of (X, Y, Z) \<Rightarrow> case shape3 filt of (Xf, Yf, Zf) \<Rightarrow>
        let X2 = int X div 2; Y2 = int Y div 2;
            Xf2 = int Xf div 2; Yf2 = int Yf div 2; Zf2 = int Zf div 2
        in for_loop (py_range Zf2 (int Z - Zf2))
          (\<lambda>i result.
             and_then
               (for_loop (py_range 0 (int Xf)) (\<lambda>ii.
                  for_loop (py_range 0 (int Yf)) (\<lambda>jj.
                    for_loop (py_range 0 (int Zf)) (\<lambda>kk num.
                      and_then (getitem3 filt (int Xf - 1 - ii) (int Yf - 1 - jj) (int Zf - 1 - kk)) (\<lambda>f.
                      and_then (getitem3 arr (X2 - Xf2 + ii) (Y2 - Yf2 + jj) (i - Zf2 + kk)) (\<lambda>a.
                      Inr (num + f * a)))))) 0)
               (\<lambda>num. setitem result i num))
          (replicate Z 0))"

section \<open>Matrices\<close>

text \<open>
  A two-dimensional \<open>ndarray\<close>, with numpy's operations on it. \<open>dot\<close> raises
  ValueError when the inner extents differ.
\<close>

record ndarray2 =
  shape2 :: "nat \<times> nat"
  data2 :: "nat \<Rightarrow> nat \<Rightarrow> real"

definition transpose2 :: "ndarray2 \<Rightarrow> ndarray2" where
  "transpose2 a = \<lparr>shape2 = (snd (shape2 a), fst (shape2 a)), data2 = (\<lambda>i j. data2 a j i)\<rparr>"

definition dot :: "ndarray2 \<Rightarrow> ndarray2 \<Rightarrow> error + ndarray2" where
  "dot a b =
     (if snd (shape2 a) = fst (shape2 b)
      then Inr \<lparr>shape2 = (fst (shape2 a), snd (shape2 b)),
                data2 = (\<lambda>i k. \<Sum>j<snd (shape2 a). data2 a i j * data2 b j k)\<rparr>
      else Inl ValueError)"

definition diagflat :: "real list \<Rightarrow> ndarray2" where
  "diagflat w = \<lparr>shape2 = (length w, length w), data2 = (\<lambda>i j. if i = j then w ! i else 0)\<rparr>"

subsection \<open>Matrix inversion\<close>

text \<open>
  \<open>numpy.linalg.inv\<close> is modelled by Gauss-Jordan elimination over the reals. A row of the
  work matrix is a pair: the row of the matrix being reduced and the row of the inverse
  being built. The columns are treated from left to right; for each column the first
  remaining row with a non-zero entry is the pivot, and the inversion fails (LinAlgError,
  "Singular matrix") when there is none. A matrix that is not square is rejected as well.
\<close>

type_synonym work_row = "(nat \<Rightarrow> real) \<times> (nat \<Rightarrow> real)"

definition row_scale :: "real \<Rightarrow> work_row \<Rightarrow> work_row" where
  "row_scale c row = (\<lambda>j. c * fst row j, \<lambda>j. c * snd row j)"

definition row_sub :: "work_row \<Rightarrow> real \<Rightarrow> work_row \<Rightarrow> work_row" where
  "row_sub row c p = (\<lambda>j. fst row j - c * fst p j, \<lambda>j. snd row j - c * snd p j)"

fun split_pivot :: "nat \<Rightarrow> work_row list \<Rightarrow> (work_row list \<times> work_row \<times> work_row list) option" where
  "split_pivot j [] = None"
| "split_pivot j (row # rows) =
     (if fst row j \<noteq> 0 then Some ([], row, rows)
      else case split_pivot j rows of
             None \<Rightarrow> None
           | Some (before, p, after) \<Rightarrow> Some (row # before, p, after))"

fun gauss_jordan :: "nat list \<Rightarrow> work_row list \<Rightarrow> work_row list \<Rightarrow> work_row list option" where
  "gauss_jordan [] reduced rest = Some reduced"
| "gauss_jordan (j # js) reduced rest =
     (case split_pivot j rest of
        None \<Rightarrow> None
      | Some (before, p, after) \<Rightarrow>
          let p' = row_scale (1 / fst p j) p;
              clear = (\<lambda>row. row_sub row (fst row j) p')
          in gauss_jordan js (map clear reduced @ [p']) (map clear (before @ after)))"

definition linalg_inv :: "ndarray2 \<Rightarrow> error + ndarray2" where
  "linalg_inv m =
     (case shape2 m of (n, n') \<Rightarrow>
        if n \<noteq> n' then Inl LinAlgError
        else case gauss_jordan [0..<n] []
                    (map (\<lambda>i. (data2 m i, (\<lambda>j. if j = i then 1 else 0))) [0..<n]) of
               None \<Rightarrow> Inl LinAlgError
             | Some rows \<Rightarrow> Inr \<lparr>shape2 = (n, n), data2 = (\<lambda>i. snd (rows ! i))\<rparr>)"

section \<open>The kernel set\<close>

text \<open>
  \<open>numpy.linspace(start, stop, num)\<close>: \<open>num\<close> evenly spaced values with both ends
  included; a negative \<open>num\<close> raises ValueError.
\<close>

definition linspace :: "real \<Rightarrow> real \<Rightarrow> int \<Rightarrow> error + real list" where
  "linspace start stop num =
     (if num < 0 then Inl ValueError
      else if num = 1 then Inr [start]
      else Inr (map (\<lambda>i. start + real i * ((stop - start) / of_int (num - 1))) [0..<nat num]))"

text \<open>
  \<open>numpy.meshgrid(..., indexing='ij')\<close> gives three arrays of shape \<open>(xs, ys, zs)\<close> that
  repeat the first, second and third coordinate vector along their own axis;
  \<open>flatten\<close> lists an array in row-major order.
\<close>

definition meshgrid_ij :: "real list \<Rightarrow> real list \<Rightarrow> real list \<Rightarrow> ndarray3 \<times> ndarray3 \<times> ndarray3" where
  "meshgrid_ij xtmp ytmp ztmp =
     (let sh = (length xtmp, length ytmp, length ztmp)
      in (\<lparr>shape3 = sh, data3 = (\<lambda>i j k. xtmp ! i)\<rparr>,
          \<lparr>shape3 = sh, data3 = (\<lambda>i j k. ytmp ! j)\<rparr>,
          \<lparr>shape3 = sh, data3 = (\<lambda>i j k. ztmp ! k)\<rparr>))"

definition flatten :: "ndarray3 \<Rightarrow> real list" where
  "flatten a =
     (case shape3 a of (X, Y, Z) \<Rightarrow>
        map (\<lambda>p. data3 a (p div (Y * Z)) (p div Z mod Y) (p mod Z)) [0..<X * Y * Z])"

text \<open>
  Division of an array by a Python float. Where the divisor is zero and the array is not
  empty numpy warns and produces \<open>inf\<close> or \<open>nan\<close>; the model marks this
  outcome as FloatingPointError.
\<close>

definition np_divide :: "real list \<Rightarrow> real \<Rightarrow> error + real list" where
  "np_divide a c =
     (if c = 0 \<and> a \<noteq> [] then Inl FloatingPointError else Inr (map (\<lambda>v. v / c) a))"

definition np_square :: "real list \<Rightarrow> real list" where
  "np_square a = map (\<lambda>v. v\<^sup>2) a"

definition np_add :: "real list \<Rightarrow> real list \<Rightarrow> real list" where
  "np_add a b = map2 (+) a b"

definition np_mul :: "real list \<Rightarrow> real list \<Rightarrow> real list" where
  "np_mul a b = map2 (*) a b"

text \<open>
  \<open>numpy.dstack\<close> of one-dimensional arrays of length \<open>n\<close>, reshaped to \<open>(n, 10)\<close>:
  column \<open>c\<close> of the result is the \<open>c\<close>-th array.
\<close>

definition dstack_reshape :: "nat \<Rightarrow> real list list \<Rightarrow> ndarray2" where
  "dstack_reshape n cols = \<lparr>shape2 = (n, length cols), data2 = (\<lambda>p c. cols ! c ! p)\<rparr>"

text \<open>\<open>DB.reshape((10, xs, ys, zs))\<close>, as the list of its ten three-dimensional slices.\<close>

definition reshape_kernels :: "ndarray2 \<Rightarrow> nat \<Rightarrow> nat \<Rightarrow> nat \<Rightarrow> ndarray3 list" where
  "reshape_kernels db xs ys zs =
     map (\<lambda>c. \<lparr>shape3 = (xs, ys, zs), data3 = (\<lambda>i j k. data2 db c ((i * ys + j) * zs + k))\<rparr>) [0..<10]"

text \<open>\<open>lpa3D_init\<close> of \<open>ex_lpa_coef.py\<close>.\<close>

definition lpa3D_init :: "int \<Rightarrow> int \<Rightarrow> int \<Rightarrow> real \<Rightarrow> error + ndarray3 list" where
  "lpa3D_init xs ys zs sigma =
     (let sx = sigma * of_int (xs - 1);
          sy = sigma * of_int (ys - 1);
          sz = sigma * of_int (zs - 1);
          hxs = of_int (xs - 1) / 2;
          hys = of_int (ys - 1) / 2;
          hzs = of_int (zs - 1) / 2
      in and_then (linspace (- hxs) hxs xs) (\<lambda>xtmp.
         and_then (linspace (- hys) hys ys) (\<lambda>ytmp.
         and_then (linspace (- hzs) hzs zs) (\<lambda>ztmp.
         let xyz = meshgrid_ij xtmp ytmp ztmp;
             x = flatten (fst xyz);
             y = flatten (fst (snd xyz));
             z = flatten (snd (snd xyz))
         in and_then (np_divide (np_square x) (2 * sx\<^sup>2)) (\<lambda>tx.
            and_then (np_divide (np_square y) (2 * sy\<^sup>2)) (\<lambda>ty.
            and_then (np_divide (np_square z) (2 * sz\<^sup>2)) (\<lambda>tz.
            let w = map (\<lambda>t. exp (- t)) (np_add (np_add tx ty) tz);
                W = diagflat w;
                A = dstack_reshape (length x)
                      [replicate (length x) 1, x, y, z, np_mul x x, np_mul y y, np_mul z z,
                       np_mul x y, np_mul x z, np_mul y z]
            in and_then (dot (transpose2 A) W) (\<lambda>AtW.
               and_then (dot AtW A) (\<lambda>AtWA.
               and_then (linalg_inv AtWA) (\<lambda>inv.
               and_then (dot inv (transpose2 A)) (\<lambda>invAt.
               and_then (dot invAt W) (\<lambda>DB.
               Inr (reshape_kernels DB (nat xs) (nat ys) (nat zs))))))))))))))"

text \<open>\<open>lpa3D_init\<close> of \<open>ex_lpa_eigenvals.py\<close>.\<close>

definition lpa3D_init_eigenvals :: "int \<Rightarrow> int \<Rightarrow> int \<Rightarrow> real \<Rightarrow> error + ndarray3 list" where
  "lpa3D_init_eigenvals xs ys zs sigma =
     (let sx = sigma * of_int (xs - 1);
          sy = sigma * of_int (ys - 1);
          sz = sigma * of_int (zs - 1);
          hxs = of_int (xs - 1) / 2;
          hys = of_int (ys - 1) / 2;
          hzs = of_int (zs - 1) / 2
      in and_then (linspace (- hxs) hxs xs) (\<lambda>xtmp.
         and_then (linspace (- hys) hys ys) (\<lambda>ytmp.
         and_then (linspace (- hzs) hzs zs) (\<lambda>ztmp.
         let xyz = meshgrid_ij xtmp ytmp ztmp;
             x = flatten (fst xyz);
             y = flatten (fst (snd xyz));
             z = flatten (snd (snd xyz))
         in and_then (np_divide (np_square x) (2 * sx\<^sup>2)) (\<lambda>tx.
            and_then (np_divide (np_square y) (2 * sy\<^sup>2)) (\<lambda>ty.
            and_then (np_divide (np_square z) (2 * sz\<^sup>2)) (\<lambda>tz.
            let w = map (\<lambda>t. exp (- t)) (np_add (np_add tx ty) tz);
                W = diagflat w;
                A = dstack_reshape (length x)
                      [replicate (length x) 1, x, y, z, np_mul x x, np_mul y y, np_mul z z,
                       np_mul x y, np_mul x z, np_mul y z]
            in and_then (dot (transpose2 A) W) (\<lambda>AtW.
               and_then (dot AtW A) (\<lambda>AtWA.
               and_then (linalg_inv AtWA) (\<lambda>inv.
               and_then (dot inv (transpose2 A)) (\<lambda>invAt.
               and_then (dot invAt W) (\<lambda>DB.
               Inr (reshape_kernels DB (nat xs) (nat ys) (nat zs))))))))))))))"

section \<open>Python floats\<close>

text \<open>
  A Python float is a binary64 number: a finite value, an infinity or a NaN. The two
  zeros are not told apart, since nothing modelled here depends on the sign of a zero.
\<close>

datatype float64 = Finite real | PosInf | NegInf | NaN

text \<open>
  Rounding of a real number to the nearest binary64 value, a tie going to the even
  significand. \<open>binary_exponent a\<close> is the exponent \<open>e\<close> of a positive number, with
  \<open>2\<^sup>e \<le> a < 2\<^sup>e\<^sup>+\<^sup>1\<close>. The binary64 values around \<open>x\<close> are the multiples of
  \<open>2\<^sup>e\<^sup>-\<^sup>5\<^sup>2\<close>, where the exponent is not taken below \<open>-1022\<close> (the subnormal
  numbers share one spacing). A rounded value of magnitude \<open>2\<^sup>1\<^sup>0\<^sup>2\<^sup>4\<close> or more
  is an infinity.
\<close>

definition binary_exponent :: "real \<Rightarrow> int" where
  "binary_exponent a =
     (if 1 \<le> a then bitlen \<lfloor>a\<rfloor> - 1 else - bitlen (\<lceil>1 / a\<rceil> - 1))"

definition round_half_even :: "real \<Rightarrow> int" where
  "round_half_even y =
     (let f = \<lfloor>y\<rfloor>
      in if y - of_int f < 1 / 2 then f
         else if 1 / 2 < y - of_int f then f + 1
         else if even f then f else f + 1)"

definition b64_round :: "real \<Rightarrow> float64" where
  "b64_round x =
     (if x = 0 then Finite 0
      else let e = max (binary_exponent \<bar>x\<bar>) (- 1022);
               u = power_int 2 (e - 52);
               r = of_int (round_half_even (x / u)) * u
           in if 2 ^ 1024 \<le> \<bar>r\<bar> then (if 0 < x then PosInf else NegInf) else Finite r)"

text \<open>
  The arithmetic of Python on floats. \<open>float_of_int\<close> is the conversion of an int that
  meets a float in an operation; it raises OverflowError when the int is too large.
  \<open>float_mul\<close> is \<open>*\<close>, which overflows to an infinity without an exception.
  \<open>float_pow2\<close> is \<open>** 2\<close>: the power function of the C library is taken to round
  the square correctly; Python raises OverflowError when the square of a finite number
  overflows and returns \<open>0.0\<close> when it underflows. \<open>float_truediv\<close> is \<open>/\<close>, which
  raises ZeroDivisionError when the divisor is zero.
\<close>

definition float_of_int :: "int \<Rightarrow> error + float64" where
  "float_of_int n =
     (case b64_round (of_int n) of Finite r \<Rightarrow> Inr (Finite r) | _ \<Rightarrow> Inl OverflowError)"

definition float_mul :: "float64 \<Rightarrow> float64 \<Rightarrow> float64" where
  "float_mul a b =
     (case (a, b) of
        (Finite x, Finite y) \<Rightarrow> b64_round (x * y)
      | (NaN, _) \<Rightarrow> NaN
      | (_, NaN) \<Rightarrow> NaN
      | (Finite x, PosInf) \<Rightarrow> (if x = 0 then NaN else if 0 < x then PosInf else NegInf)
      | (Finite x, NegInf) \<Rightarrow> (if x = 0 then NaN else if 0 < x then NegInf else PosInf)
      | (PosInf, Finite y) \<Rightarrow> (if y = 0 then NaN else if 0 < y then PosInf else NegInf)
      | (NegInf, Finite y) \<Rightarrow> (if y = 0 then NaN else if 0 < y then NegInf else PosInf)
      | (PosInf, PosInf) \<Rightarrow> PosInf
      | (NegInf, NegInf) \<Rightarrow> PosInf
      | (PosInf, NegInf) \<Rightarrow> NegInf
      | (NegInf, PosInf) \<Rightarrow> NegInf)"

definition float_pow2 :: "float64 \<Rightarrow> error + float64" where
  "float_pow2 a =
     (case a of
        Finite x \<Rightarrow> (case b64_round (x * x) of Finite r \<Rightarrow> Inr (Finite r) | _ \<Rightarrow> Inl OverflowError)
      | NaN \<Rightarrow> Inr NaN
      | _ \<Rightarrow> Inr PosInf)"

definition float_truediv :: "float64 \<Rightarrow> float64 \<Rightarrow> error + float64" where
  "float_truediv a b =
     (case (a, b) of
        (_, Finite y) \<Rightarrow>
          (if y = 0 then Inl ZeroDivisionError
           else case a of
                  Finite x \<Rightarrow> Inr (b64_round (x / y))
                | NaN \<Rightarrow> Inr NaN
                | PosInf \<Rightarrow> Inr (if 0 < y then PosInf else NegInf)
                | NegInf \<Rightarrow> Inr (if 0 < y then NegInf else PosInf))
      | (Finite x, PosInf) \<Rightarrow> Inr (Finite 0)
      | (Finite x, NegInf) \<Rightarrow> Inr (Finite 0)
      | _ \<Rightarrow> Inr NaN)"

section \<open>The two attribute scripts\<close>

text \<open>
  One pass of the loop of \<open>doCompute\<close> in \<open>ex_lpa_coef.py\<close>: the ten outputs \<open>r0\<close> to
  \<open>r9\<close>, in this order.
\<close>

definition coef_outputs :: "ndarray3 list \<Rightarrow> ndarray3 \<Rightarrow> error + real list list" where
  "coef_outputs kernels Input =
     for_loop (py_range 0 10)
       (\<lambda>i out. and_then (sconvolve Input (kernels ! nat i)) (\<lambda>r. Inr (out @ [r]))) []"

text \<open>
  \<open>doCompute\<close> of \<open>ex_lpa_eigenvals.py\<close>. The mixing constant is plain Python
  arithmetic, whose division raises ZeroDivisionError. \<open>gam\<close> reads the line in exact
  arithmetic, \<open>gam_binary64\<close> in the arithmetic of Python floats, where the ints
  \<open>min(xs, ys, zs) - 1\<close>, \<open>8\<close> and \<open>1\<close> are converted as they meet a float.
\<close>

definition py_truediv :: "real \<Rightarrow> real \<Rightarrow> error + real" where
  "py_truediv a b = (if b = 0 then Inl ZeroDivisionError else Inr (a / b))"

definition gam :: "int \<Rightarrow> int \<Rightarrow> int \<Rightarrow> real \<Rightarrow> error + real" where
  "gam xs ys zs wfac = py_truediv 1 (8 * (of_int (min xs (min ys zs) - 1) * wfac)\<^sup>2)"

definition gam_binary64 :: "int \<Rightarrow> int \<Rightarrow> int \<Rightarrow> float64 \<Rightarrow> error + float64" where
  "gam_binary64 xs ys zs wfac =
     and_then (float_of_int (min xs (min ys zs) - 1)) (\<lambda>m.
     and_then (float_pow2 (float_mul m wfac)) (\<lambda>q.
     and_then (float_of_int 8) (\<lambda>c8.
     and_then (float_of_int 1) (\<lambda>c1.
     float_truediv c1 (float_mul c8 q)))))"

text \<open>
  The stacks \<open>A\<close> and \<open>B\<close> hold one 3 by 3 and one 3 by 1 matrix per sample \<open>s\<close>;
  \<open>r\<close> is the array of the ten coefficient traces. The \<open>einsum\<close> multiplies the matrices
  of a sample, the second one transposed by \<open>swapaxes\<close>.
\<close>

definition curvature :: "real list list \<Rightarrow> nat \<Rightarrow> ndarray2" where
  "curvature r s =
     \<lparr>shape2 = (3, 3),
      data2 = (\<lambda>i j. [[r ! 4 ! s, r ! 7 ! s / 2, r ! 8 ! s / 2],
                       [r ! 7 ! s / 2, r ! 5 ! s, r ! 9 ! s / 2],
                       [r ! 8 ! s / 2, r ! 9 ! s / 2, r ! 6 ! s]] ! i ! j)\<rparr>"

definition gradient :: "real list list \<Rightarrow> nat \<Rightarrow> ndarray2" where
  "gradient r s = \<lparr>shape2 = (3, 1), data2 = (\<lambda>i j. [[r ! 1 ! s], [r ! 2 ! s], [r ! 3 ! s]] ! i ! j)\<rparr>"

definition einsum_ij_jk :: "ndarray2 \<Rightarrow> ndarray2 \<Rightarrow> ndarray2" where
  "einsum_ij_jk a b =
     \<lparr>shape2 = (fst (shape2 a), snd (shape2 b)),
      data2 = (\<lambda>i k. \<Sum>j<snd (shape2 a). data2 a i j * data2 b j k)\<rparr>"

definition tensor :: "real list list \<Rightarrow> real \<Rightarrow> nat \<Rightarrow> ndarray2" where
  "tensor r g s =
     (let A = curvature r s;
          AAT = einsum_ij_jk A (transpose2 A);
          B = gradient r s;
          BBT = einsum_ij_jk B (transpose2 B)
      in \<lparr>shape2 = (3, 3), data2 = (\<lambda>i j. data2 AAT i j + g * data2 BBT i j)\<rparr>)"

text \<open>
  The eigenvalue solver \<open>numpy.linalg.eigvalsh\<close> is a parameter: it maps a matrix to the
  list of its eigenvalues. The script sorts what the solver returns in ascending order
  and emits the last, middle and first value as \<open>e1\<close>, \<open>e2\<close> and \<open>e3\<close>.
\<close>

definition eigen_outputs ::
  "(ndarray2 \<Rightarrow> real list) \<Rightarrow> real list list \<Rightarrow> real \<Rightarrow> nat \<Rightarrow> real list \<times> real list \<times> real list" where
  "eigen_outputs eigvalsh r g nrsamp =
     (let T = map (tensor r g) [0..<nrsamp];
          w = map eigvalsh T;
          v = map sort w
      in (map (\<lambda>row. row ! 2) v, map (\<lambda>row. row ! 1) v, map (\<lambda>row. row ! 0) v))"

section \<open>Auxiliary notions\<close>

text \<open>
  The part of \<open>lpa3D_init\<close> after the weights have been computed, and the closed
  forms of the flattened coordinates and weights of the window grid.
\<close>

definition lpa_solve :: "real list \<Rightarrow> real list \<Rightarrow> real list \<Rightarrow> real list \<Rightarrow> nat \<Rightarrow> nat \<Rightarrow> nat \<Rightarrow> error + ndarray3 list" where
  "lpa_solve x y z w xs ys zs =
     (let W = diagflat w;
          A = dstack_reshape (length x)
                [replicate (length x) 1, x, y, z, np_mul x x, np_mul y y, np_mul z z,
                 np_mul x y, np_mul x z, np_mul y z]
      in and_then (dot (transpose2 A) W) (\<lambda>AtW.
         and_then (dot AtW A) (\<lambda>AtWA.
         and_then (linalg_inv AtWA) (\<lambda>inv.
         and_then (dot inv (transpose2 A)) (\<lambda>invAt.
         and_then (dot invAt W) (\<lambda>DB.
         Inr (reshape_kernels DB xs ys zs)))))))"

definition grid_x :: "nat \<Rightarrow> nat \<Rightarrow> nat \<Rightarrow> real list" where
  "grid_x xs ys zs = map (\<lambda>p. real (p div (ys * zs)) - (real xs - 1) / 2) [0..<xs * ys * zs]"

definition grid_y :: "nat \<Rightarrow> nat \<Rightarrow> nat \<Rightarrow> real list" where
  "grid_y xs ys zs = map (\<lambda>p. real (p div zs mod ys) - (real ys - 1) / 2) [0..<xs * ys * zs]"

definition grid_z :: "nat \<Rightarrow> nat \<Rightarrow> nat \<Rightarrow> real list" where
  "grid_z xs ys zs = map (\<lambda>p. real (p mod zs) - (real zs - 1) / 2) [0..<xs * ys * zs]"

definition grid_w :: "nat \<Rightarrow> nat \<Rightarrow> nat \<Rightarrow> real \<Rightarrow> real list" where
  "grid_w xs ys zs sigma =
     map (\<lambda>p. exp (- ((grid_x xs ys zs ! p)\<^sup>2 / (2 * (sigma * (real xs - 1))\<^sup>2) +
                       (grid_y xs ys zs ! p)\<^sup>2 / (2 * (sigma * (real ys - 1))\<^sup>2) +
                       (grid_z xs ys zs ! p)\<^sup>2 / (2 * (sigma * (real zs - 1))\<^sup>2))))
       [0..<xs * ys * zs]"

text \<open>
  The range of binary64. \<open>binary64_normal v\<close>: the magnitude of \<open>v\<close> lies between the
  smallest positive normal number \<open>2\<^sup>-\<^sup>1\<^sup>0\<^sup>2\<^sup>2\<close> and the largest finite number.
  \<open>weights_in_range\<close>: the squares \<open>sx\<^sup>2\<close>, \<open>sy\<^sup>2\<close>, \<open>sz\<^sup>2\<close>, the divisors
  \<open>2 sx\<^sup>2\<close>, \<open>2 sy\<^sup>2\<close>, \<open>2 sz\<^sup>2\<close> and all weights of the window are in that range.
  In the program no square then overflows and no weight underflows: a square that
  overflows raises OverflowError there, and a weight that underflows is \<open>0.0\<close> there
  while it is positive in the model.
\<close>

definition binary64_normal :: "real \<Rightarrow> bool" where
  "binary64_normal v \<longleftrightarrow> 1 / 2 ^ 1022 \<le> \<bar>v\<bar> \<and> \<bar>v\<bar> \<le> (2 ^ 53 - 1) * 2 ^ 971"

definition weights_in_range :: "int \<Rightarrow> int \<Rightarrow> int \<Rightarrow> real \<Rightarrow> bool" where
  "weights_in_range xs ys zs sigma \<longleftrightarrow>
     (\<forall>d\<in>{sigma * of_int (xs - 1), sigma * of_int (ys - 1), sigma * of_int (zs - 1)}.
         binary64_normal (d\<^sup>2) \<and> binary64_normal (2 * d\<^sup>2)) \<and>
     (\<forall>w\<in>set (grid_w (nat xs) (nat ys) (nat zs) sigma). binary64_normal w)"

text \<open>
  The invariants of the elimination, for the matrix \<open>M\<close> of extent \<open>n\<close> being inverted.
  \<open>row_ok\<close>: the right half of a work row, multiplied with \<open>M\<close>, gives its left half.
  \<open>gj_inv\<close>: after \<open>k\<close> columns the reduced rows carry the first \<open>k\<close> unit vectors and
  the remaining rows are zero there. \<open>gj_null\<close>: a vector that the left halves of all
  work rows annihilate is annihilated by \<open>M\<close>.
\<close>

definition row_ok :: "nat \<Rightarrow> (nat \<Rightarrow> nat \<Rightarrow> real) \<Rightarrow> work_row \<Rightarrow> bool" where
  "row_ok n M row \<longleftrightarrow> (\<forall>c<n. (\<Sum>i<n. snd row i * M i c) = fst row c)"

definition gj_inv :: "nat \<Rightarrow> (nat \<Rightarrow> nat \<Rightarrow> real) \<Rightarrow> nat \<Rightarrow> work_row list \<Rightarrow> work_row list \<Rightarrow> bool" where
  "gj_inv n M k reduced rest \<longleftrightarrow>
     length reduced = k \<and>
     (\<forall>row\<in>set reduced \<union> set rest. row_ok n M row) \<and>
     (\<forall>i<k. \<forall>c<k. fst (reduced ! i) c = (if c = i then 1 else 0)) \<and>
     (\<forall>row\<in>set rest. \<forall>c<k. fst row c = 0)"

definition gj_null :: "nat \<Rightarrow> (nat \<Rightarrow> nat \<Rightarrow> real) \<Rightarrow> work_row list \<Rightarrow> work_row list \<Rightarrow> bool" where
  "gj_null n M reduced rest \<longleftrightarrow>
     (\<forall>u. (\<forall>row\<in>set reduced \<union> set rest. (\<Sum>c<n. fst row c * u c) = 0) \<longrightarrow>
          (\<forall>i<n. (\<Sum>c<n. M i c * u c) = 0))"

definition unit_rows :: "ndarray2 \<Rightarrow> nat \<Rightarrow> work_row list" where
  "unit_rows m n = map (\<lambda>i. (data2 m i, (\<lambda>j. if j = i then 1 else 0))) [0..<n]"

text \<open>
  The ten monomials in the order of the columns of the design matrix, the polynomial
  \<open>quadric c\<close> with the coefficients \<open>c 0\<close> to \<open>c 9\<close>, and the matrices that
  \<open>lpa3D_init\<close> builds from the flattened coordinates and weights: the design matrix
  \<open>A\<close>, the normal matrix \<open>A\<^sup>T W A\<close> and, for an inverse \<open>minv\<close> of the latter, the
  matrix \<open>minv A\<^sup>T W\<close> whose rows are the kernels. \<open>parity_sign k\<close> is the factor the
  \<open>k\<close>-th monomial takes when all three coordinates change sign.
\<close>

definition monomial :: "nat \<Rightarrow> real \<Rightarrow> real \<Rightarrow> real \<Rightarrow> real" where
  "monomial k x y z = [1, x, y, z, x * x, y * y, z * z, x * y, x * z, y * z] ! k"

definition lpa_design :: "real list \<Rightarrow> real list \<Rightarrow> real list \<Rightarrow> ndarray2" where
  "lpa_design x y z =
     dstack_reshape (length x)
       [replicate (length x) 1, x, y, z, np_mul x x, np_mul y y, np_mul z z,
        np_mul x y, np_mul x z, np_mul y z]"

definition lpa_normal :: "real list \<Rightarrow> real list \<Rightarrow> real list \<Rightarrow> real list \<Rightarrow> ndarray2" where
  "lpa_normal x y z w =
     \<lparr>shape2 = (10, 10),
      data2 = (\<lambda>i k. \<Sum>j<length w.
                 (\<Sum>q<length x. data2 (transpose2 (lpa_design x y z)) i q * data2 (diagflat w) q j) *
                 data2 (lpa_design x y z) j k)\<rparr>"

definition lpa_deconv :: "real list \<Rightarrow> real list \<Rightarrow> real list \<Rightarrow> real list \<Rightarrow> ndarray2 \<Rightarrow> ndarray2" where
  "lpa_deconv x y z w minv =
     \<lparr>shape2 = (10, length w),
      data2 = (\<lambda>i k. \<Sum>j<length x.
                 (\<Sum>q<10. data2 minv i q * data2 (transpose2 (lpa_design x y z)) q j) *
                 data2 (diagflat w) j k)\<rparr>"

definition quadric :: "(nat \<Rightarrow> real) \<Rightarrow> real \<Rightarrow> real \<Rightarrow> real \<Rightarrow> real" where
  "quadric u x y z = (\<Sum>k<10. u k * monomial k x y z)"

definition parity_sign :: "nat \<Rightarrow> real" where
  "parity_sign k = (if k = 1 \<or> k = 2 \<or> k = 3 then - 1 else 1)"

section \<open>Properties of the centre-trace convolution\<close>

lemma and_then_Inr [simp]: "and_then (Inr x) f = f x"
  by (simp add: and_then_def)

lemma and_then_Inl [simp]: "and_then (Inl e) f = Inl e"
  by (simp add: and_then_def)

lemma and_then_eq_Inr: "and_then m f = Inr y \<longleftrightarrow> (\<exists>x. m = Inr x \<and> f x = Inr y)"
  by (cases m) simp_all

lemma for_loop_sum:
  "(\<And>i s. i \<in> set xs \<Longrightarrow> body i s = Inr (s + g i)) \<Longrightarrow>
   for_loop xs body s = Inr (s + sum_list (map g xs))"
  by (induction xs arbitrary: s) (simp_all add: add.assoc)

lemma py_range_nat: "py_range (int a) (int b) = map int [a..<b]"
proof (induction b)
  case 0
  then show ?case by (simp add: py_range_def)
next
  case (Suc b)
  show ?case
  proof (cases "a \<le> b")
    case True
    then have "[int a..int (Suc b) - 1] = [int a..int b - 1] @ [int b]"
      using upto_rec2 [of "int a" "int b"] by simp
    with Suc True show ?thesis by (simp add: py_range_def)
  next
    case False
    then show ?thesis by (simp add: py_range_def)
  qed
qed

lemma py_range_0: "py_range 0 (int n) = map int [0..<n]"
  using py_range_nat [of 0 n] by simp

lemma py_index_nat: "i < n \<Longrightarrow> py_index n (int i) = Inr i"
  by (simp add: py_index_def)

lemma getitem3_nat:
  "shape3 a = (X, Y, Z) \<Longrightarrow> i < X \<Longrightarrow> j < Y \<Longrightarrow> k < Z \<Longrightarrow>
   getitem3 a (int i) (int j) (int k) = Inr (data3 a i j k)"
  by (simp add: getitem3_def py_index_nat)

lemma centre_index:
  assumes "Xf \<le> X" "ii < Xf"
  shows "int X div 2 - int Xf div 2 + int ii = int (X div 2 - Xf div 2 + ii) \<and> X div 2 - Xf div 2 + ii < X"
proof
  have "Xf div 2 \<le> X div 2" using assms(1) by (rule div_le_mono)
  then show "int X div 2 - int Xf div 2 + int ii = int (X div 2 - Xf div 2 + ii)"
    by (simp add: zdiv_int)
  show "X div 2 - Xf div 2 + ii < X"
    using assms by linarith
qed

lemma sconvolve_term_nat:
  assumes "shape3 arr = (X, Y, Z)" "shape3 filt = (Xf, Yf, Zf)"
    and "Xf \<le> X" "Yf \<le> Y" "Zf div 2 \<le> i" "i < Z - Zf div 2"
    and "ii < Xf" "jj < Yf" "kk < Zf"
  shows "sconvolve_term arr filt (int i) (int ii) (int jj) (int kk) num =
         Inr (num + data3 filt (Xf - 1 - ii) (Yf - 1 - jj) (Zf - 1 - kk) *
                    data3 arr (X div 2 - Xf div 2 + ii) (Y div 2 - Yf div 2 + jj) (i - Zf div 2 + kk))"
proof -
  have f: "getitem3 filt (int Xf - 1 - int ii) (int Yf - 1 - int jj) (int Zf - 1 - int kk) =
        Inr (data3 filt (Xf - 1 - ii) (Yf - 1 - jj) (Zf - 1 - kk))"
  proof -
    have e: "int Xf - 1 - int ii = int (Xf - 1 - ii)" "int Yf - 1 - int jj = int (Yf - 1 - jj)"
      "int Zf - 1 - int kk = int (Zf - 1 - kk)"
      using assms(7-9) by simp_all
    have b: "Xf - 1 - ii < Xf" "Yf - 1 - jj < Yf" "Zf - 1 - kk < Zf"
      using assms(7-9) by simp_all
    show ?thesis
      unfolding e by (rule getitem3_nat [OF assms(2) b])
  qed
  have z: "int i - int Zf div 2 + int kk = int (i - Zf div 2 + kk)" "i - Zf div 2 + kk < Z"
    using assms(5,6,9) by (simp_all add: zdiv_int)
  have x: "int X div 2 - int Xf div 2 + int ii = int (X div 2 - Xf div 2 + ii)" "X div 2 - Xf div 2 + ii < X"
    using centre_index [OF assms(3) assms(7)] by simp_all
  have y: "int Y div 2 - int Yf div 2 + int jj = int (Y div 2 - Yf div 2 + jj)" "Y div 2 - Yf div 2 + jj < Y"
    using centre_index [OF assms(4) assms(8)] by simp_all
  have a: "getitem3 arr (int X div 2 - int Xf div 2 + int ii) (int Y div 2 - int Yf div 2 + int jj)
          (int i - int Zf div 2 + int kk) =
        Inr (data3 arr (X div 2 - Xf div 2 + ii) (Y div 2 - Yf div 2 + jj) (i - Zf div 2 + kk))"
    unfolding x(1) y(1) z(1) by (rule getitem3_nat [OF assms(1) x(2) y(2) z(2)])
  show ?thesis
    using f a by (simp add: sconvolve_term_def assms(1,2))
qed

lemma sconvolve_inner:
  assumes "shape3 arr = (X, Y, Z)" "shape3 filt = (Xf, Yf, Zf)"
    and "Xf \<le> X" "Yf \<le> Y" "Zf div 2 \<le> i" "i < Z - Zf div 2"
  shows "for_loop (py_range 0 (int Xf)) (\<lambda>ii.
           for_loop (py_range 0 (int Yf)) (\<lambda>jj.
             for_loop (py_range 0 (int Zf)) (\<lambda>kk.
               sconvolve_term arr filt (int i) ii jj kk))) 0 = Inr (window_sum arr filt i)"
proof -
  let ?t = "\<lambda>ii jj kk. data3 filt (Xf - 1 - ii) (Yf - 1 - jj) (Zf - 1 - kk) *
                    data3 arr (X div 2 - Xf div 2 + ii) (Y div 2 - Yf div 2 + jj) (i - Zf div 2 + kk)"
  have kk: "for_loop (py_range 0 (int Zf)) (\<lambda>kk. sconvolve_term arr filt (int i) (int ii) (int jj) kk) s =
        Inr (s + (\<Sum>kk<Zf. ?t ii jj kk))" if "ii < Xf" "jj < Yf" for ii jj s
  proof -
    have "for_loop (map int [0..<Zf]) (\<lambda>kk. sconvolve_term arr filt (int i) (int ii) (int jj) kk) s =
        Inr (s + sum_list (map (\<lambda>k. ?t ii jj (nat k)) (map int [0..<Zf])))"
      by (rule for_loop_sum) (auto simp: sconvolve_term_nat [OF assms that])
    then show ?thesis
      by (simp add: py_range_0 comp_def sum_list_sum_nth atLeast0LessThan)
  qed
  have jj: "for_loop (py_range 0 (int Yf)) (\<lambda>jj. for_loop (py_range 0 (int Zf))
          (\<lambda>kk. sconvolve_term arr filt (int i) (int ii) jj kk)) s =
        Inr (s + (\<Sum>jj<Yf. \<Sum>kk<Zf. ?t ii jj kk))" if "ii < Xf" for ii s
  proof -
    have "for_loop (map int [0..<Yf]) (\<lambda>jj. for_loop (py_range 0 (int Zf))
          (\<lambda>kk. sconvolve_term arr filt (int i) (int ii) jj kk)) s =
        Inr (s + sum_list (map (\<lambda>j. \<Sum>kk<Zf. ?t ii (nat j) kk) (map int [0..<Yf])))"
      by (rule for_loop_sum) (auto simp: kk [OF that])
    then show ?thesis
      by (simp add: py_range_0 comp_def sum_list_sum_nth atLeast0LessThan)
  qed
  have "for_loop (map int [0..<Xf]) (\<lambda>ii. for_loop (py_range 0 (int Yf)) (\<lambda>jj.
          for_loop (py_range 0 (int Zf)) (\<lambda>kk. sconvolve_term arr filt (int i) ii jj kk))) 0 =
        Inr (0 + sum_list (map (\<lambda>i. \<Sum>jj<Yf. \<Sum>kk<Zf. ?t (nat i) jj kk) (map int [0..<Xf])))"
    by (rule for_loop_sum) (auto simp: jj)
  then show ?thesis
    by (simp add: py_range_0 comp_def sum_list_sum_nth atLeast0LessThan window_sum_def assms(1,2))
qed

lemma set_py_range: "i \<in> set (py_range a b) \<longleftrightarrow> a \<le> i \<and> i < b"
  by (auto simp: py_range_def)

lemma setitem_nat: "0 \<le> i \<Longrightarrow> i < int (length xs) \<Longrightarrow> setitem xs i v = Inr (xs[nat i := v])"
  by (simp add: setitem_def py_index_def)

lemma store_loop:
  assumes "\<And>i. i \<in> set js \<Longrightarrow> 0 \<le> i \<and> i < int (length r0) \<and> m i = Inr (g i)"
  shows "\<exists>r. for_loop js (\<lambda>i result. and_then (m i) (\<lambda>num. setitem result i num)) r0 = Inr r \<and>
             length r = length r0 \<and>
             (\<forall>z<length r0. r ! z = (if int z \<in> set js then g (int z) else r0 ! z))"
  using assms
proof (induction js arbitrary: r0)
  case Nil
  then show ?case by simp
next
  case (Cons j js)
  let ?r1 = "r0[nat j := g j]"
  have j: "0 \<le> j" "j < int (length r0)" "m j = Inr (g j)"
    using Cons.prems [of j] by simp_all
  have "\<And>i. i \<in> set js \<Longrightarrow> 0 \<le> i \<and> i < int (length ?r1) \<and> m i = Inr (g i)"
    using Cons.prems by simp
  from Cons.IH [OF this] obtain r where
    r: "for_loop js (\<lambda>i result. and_then (m i) (\<lambda>num. setitem result i num)) ?r1 = Inr r"
      "length r = length ?r1"
      "\<forall>z<length ?r1. r ! z = (if int z \<in> set js then g (int z) else ?r1 ! z)"
    by blast
  have "for_loop (j # js) (\<lambda>i result. and_then (m i) (\<lambda>num. setitem result i num)) r0 = Inr r"
    using j r(1) by (simp add: setitem_nat)
  moreover have "length r = length r0"
    using r(2) by simp
  moreover have "r ! z = (if int z \<in> set (j # js) then g (int z) else r0 ! z)" if "z < length r0" for z
  proof (cases "int z = j")
    case True
    then have "nat j = z" by simp
    with r(3) that True show ?thesis by auto
  next
    case False
    then have "nat j \<noteq> z" using j(1) by auto
    with r(3) that False show ?thesis by auto
  qed
  ultimately show ?case by blast
qed

lemma setitem_eq_Inr:
  "setitem xs i v = Inr ys \<Longrightarrow> 0 \<le> i \<Longrightarrow> ys = xs[nat i := v]"
  by (auto simp: setitem_def py_index_def split: if_splits)

lemma store_loop_frame:
  assumes "for_loop js (\<lambda>i result. and_then (m i) (\<lambda>num. setitem result i num)) r0 = Inr r"
    and "\<forall>i\<in>set js. 0 \<le> i"
  shows "length r = length r0 \<and> (\<forall>z<length r0. int z \<notin> set js \<longrightarrow> r ! z = r0 ! z)"
  using assms
proof (induction js arbitrary: r0)
  case Nil
  then show ?case by simp
next
  case (Cons j js)
  from Cons.prems(1) obtain num r1 where
    s: "m j = Inr num" "setitem r0 j num = Inr r1"
      "for_loop js (\<lambda>i result. and_then (m i) (\<lambda>num. setitem result i num)) r1 = Inr r"
    by (auto simp: and_then_eq_Inr)
  have r1: "r1 = r0[nat j := num]"
    using setitem_eq_Inr [OF s(2)] Cons.prems(2) by simp
  have ih: "length r = length r1 \<and> (\<forall>z<length r1. int z \<notin> set js \<longrightarrow> r ! z = r1 ! z)"
    using Cons.IH [OF s(3)] Cons.prems(2) by simp
  have "r0[nat j := num] ! z = r0 ! z" if "int z \<noteq> j" for z
    using that Cons.prems(2) by (cases "nat j = z") auto
  then show ?case
    using ih by (auto simp: r1)
qed

lemma for_loop_error:
  assumes "for_loop xs body s = Inl e"
    and "\<And>i s e. body i s = Inl e \<Longrightarrow> P e"
  shows "P e"
  using assms(1)
proof (induction xs arbitrary: s)
  case Nil
  then show ?case by simp
next
  case (Cons x xs)
  show ?case
  proof (cases "body x s")
    case (Inl e')
    with Cons.prems have "e' = e" by simp
    with Inl assms(2) show ?thesis by blast
  next
    case (Inr s')
    with Cons show ?thesis by simp
  qed
qed

lemma py_index_error: "py_index n i = Inl e \<Longrightarrow> e = IndexError"
  by (simp add: py_index_def split: if_splits)

lemma getitem3_error: "getitem3 a i j k = Inl e \<Longrightarrow> e = IndexError"
  by (auto simp: getitem3_def and_then_def split: prod.splits sum.splits dest: py_index_error)

lemma sconvolve_term_error: "sconvolve_term arr filt i ii jj kk num = Inl e \<Longrightarrow> e = IndexError"
  by (auto simp: sconvolve_term_def and_then_def Let_def split: prod.splits sum.splits dest: getitem3_error)

lemma sconvolve_error: 
  assumes "sconvolve arr filt = Inl e" shows "e = IndexError"
proof -
  obtain X Y Z Xf Yf Zf where sh: "shape3 arr = (X, Y, Z)" "shape3 filt = (Xf, Yf, Zf)"
    by (metis prod_cases3)
  let ?inner = "\<lambda>i. for_loop (py_range 0 (int Xf)) (\<lambda>ii.
                  for_loop (py_range 0 (int Yf)) (\<lambda>jj.
                    for_loop (py_range 0 (int Zf)) (\<lambda>kk.
                      sconvolve_term arr filt i ii jj kk))) 0"
  have inner: "e' = IndexError" if "?inner i = Inl e'" for i e'
    using that
    by (rule for_loop_error, elim for_loop_error) (rule sconvolve_term_error)
  have "for_loop (sconvolve_range arr filt) (\<lambda>i result. and_then (?inner i) (\<lambda>num. setitem result i num))
          (replicate Z 0) = Inl e"
    using assms by (simp add: sconvolve_def sh)
  then show ?thesis
  proof (rule for_loop_error)
    fix i s e'
    assume "and_then (?inner i) (\<lambda>num. setitem s i num) = Inl e'"
    then show "e' = IndexError"
      using inner [of i e']
      by (auto simp: and_then_def setitem_def split: sum.splits dest: py_index_error)
  qed
qed

lemma sconvolve_frame:
  assumes "sconvolve arr filt = Inr res" "shape3 arr = (X, Y, Z)" "shape3 filt = (Xf, Yf, Zf)"
  shows "length res = Z \<and> (\<forall>z<Z. z < Zf div 2 \<or> Z - Zf div 2 \<le> z \<longrightarrow> res ! z = 0)"
proof -
  have nonneg: "\<forall>i\<in>set (sconvolve_range arr filt). 0 \<le> i"
    by (auto simp: sconvolve_range_def assms set_py_range)
  have out: "int z \<notin> set (sconvolve_range arr filt)" if "z < Zf div 2 \<or> Z - Zf div 2 \<le> z" for z
    using that by (auto simp: sconvolve_range_def assms set_py_range zdiv_int)
  have "length res = length (replicate Z (0::real)) \<and>
        (\<forall>z<length (replicate Z (0::real)). int z \<notin> set (sconvolve_range arr filt) \<longrightarrow> res ! z = replicate Z (0::real) ! z)"
    by (rule store_loop_frame [OF _ nonneg]) (use assms in \<open>simp add: sconvolve_def\<close>)
  then show ?thesis
    using out by simp
qed

lemma sconvolve_total:
  assumes "shape3 arr = (X, Y, Z)" "shape3 filt = (Xf, Yf, Zf)"
    and "Xf \<le> X" "Yf \<le> Y"
  shows "\<exists>res. sconvolve arr filt = Inr res \<and> length res = Z \<and>
          (\<forall>z<Z. res ! z = (if Zf div 2 \<le> z \<and> z < Z - Zf div 2 then window_sum arr filt z else 0))"
proof -
  let ?inner = "\<lambda>i. for_loop (py_range 0 (int Xf)) (\<lambda>ii.
                  for_loop (py_range 0 (int Yf)) (\<lambda>jj.
                    for_loop (py_range 0 (int Zf)) (\<lambda>kk.
                      sconvolve_term arr filt i ii jj kk))) 0"
  have mem: "int z \<in> set (sconvolve_range arr filt) \<longleftrightarrow> Zf div 2 \<le> z \<and> z < Z - Zf div 2" for z
    by (auto simp: sconvolve_range_def assms set_py_range zdiv_int)
  have "\<exists>r. for_loop (sconvolve_range arr filt)
            (\<lambda>i result. and_then (?inner i) (\<lambda>num. setitem result i num)) (replicate Z 0) = Inr r \<and>
          length r = length (replicate Z (0::real)) \<and>
          (\<forall>z<length (replicate Z (0::real)). r ! z =
             (if int z \<in> set (sconvolve_range arr filt) then window_sum arr filt (nat (int z))
              else replicate Z (0::real) ! z))"
  proof (rule store_loop)
    fix i assume i: "i \<in> set (sconvolve_range arr filt)"
    then have "0 \<le> i" by (auto simp: sconvolve_range_def assms set_py_range)
    then obtain z where z: "i = int z" by (metis nat_0_le)
    with i mem have zr: "Zf div 2 \<le> z" "z < Z - Zf div 2" by simp_all
    have "?inner (int z) = Inr (window_sum arr filt z)"
      by (rule sconvolve_inner [OF assms zr])
    with z zr show "0 \<le> i \<and> i < int (length (replicate Z (0::real))) \<and> ?inner i = Inr (window_sum arr filt (nat i))"
      by simp
  qed
  then obtain r where r: "sconvolve arr filt = Inr r" "length r = Z"
    "\<forall>z<Z. r ! z = (if Zf div 2 \<le> z \<and> z < Z - Zf div 2 then window_sum arr filt z else replicate Z (0::real) ! z)"
    by (auto simp: sconvolve_def assms mem)
  then have "\<forall>z<Z. r ! z = (if Zf div 2 \<le> z \<and> z < Z - Zf div 2 then window_sum arr filt z else 0)"
    by simp
  with r(1,2) show ?thesis by blast
qed

lemma xl_sconvolve_eq: "xl_sconvolve arr filt = sconvolve arr filt"
proof -
  obtain X Y Z Xf Yf Zf where sh: "shape3 arr = (X, Y, Z)" "shape3 filt = (Xf, Yf, Zf)"
    by (metis prod_cases3)
  have t: "sconvolve_term arr filt i ii jj kk = (\<lambda>num.
        and_then (getitem3 filt (int Xf - 1 - ii) (int Yf - 1 - jj) (int Zf - 1 - kk)) (\<lambda>f.
        and_then (getitem3 arr (int X div 2 - int Xf div 2 + ii) (int Y div 2 - int Yf div 2 + jj)
                    (i - int Zf div 2 + kk)) (\<lambda>a.
        Inr (num + f * a))))" for i ii jj kk
    by (rule ext) (simp add: sconvolve_term_def sh)
  show ?thesis
    by (simp add: xl_sconvolve_def sconvolve_def sconvolve_range_def sh t Let_def)
qed

lemma sconvolve_range_empty:
  assumes "shape3 arr = (X, Y, Z)" "shape3 filt = (Xf, Yf, Zf)" "Z < Zf"
  shows "sconvolve_range arr filt = []"
proof -
  have "int Z - int Zf div 2 - 1 < int Zf div 2" using assms(3) by linarith
  then have "[int Zf div 2..int Z - int Zf div 2 - 1] = []"
    by (rule upto_empty)
  then show ?thesis
    by (simp add: sconvolve_range_def assms(1,2) py_range_def)
qed

lemma sconvolve_empty_range:
  assumes "shape3 arr = (X, Y, Z)" "sconvolve_range arr filt = []"
  shows "sconvolve arr filt = Inr (replicate Z 0)"
proof -
  obtain Xf Yf Zf where sh: "shape3 filt = (Xf, Yf, Zf)"
    by (metis prod_cases3)
  show ?thesis
    unfolding sconvolve_def assms sh by simp
qed

section \<open>Properties of the orientation tensor\<close>

lemma sum3: "(\<Sum>i<(3::nat). f i) = f 0 + f 1 + (f 2 :: 'a :: comm_monoid_add)"
  by (simp add: lessThan_nat_numeral lessThan_Suc add.commute add.left_commute)

lemma all_less_3: "(\<forall>i<(3::nat). P i) \<longleftrightarrow> P 0 \<and> P 1 \<and> P 2"
proof -
  have "i < 3 \<longleftrightarrow> i = 0 \<or> i = 1 \<or> i = 2" for i :: nat by auto
  then show ?thesis by auto
qed

lemma ex_less_3: "(\<exists>i<(3::nat). P i) \<longleftrightarrow> P 0 \<or> P 1 \<or> P 2"
proof -
  have "i < 3 \<longleftrightarrow> i = 0 \<or> i = 1 \<or> i = 2" for i :: nat by auto
  then show ?thesis by auto
qed

lemma tensor_entries:
  fixes r :: "real list list"
  defines "r1 \<equiv> \<lambda>s. r ! 1 ! s" and "r2 \<equiv> \<lambda>s. r ! 2 ! s" and "r3 \<equiv> \<lambda>s. r ! 3 ! s"
    and "r4 \<equiv> \<lambda>s. r ! 4 ! s" and "r5 \<equiv> \<lambda>s. r ! 5 ! s" and "r6 \<equiv> \<lambda>s. r ! 6 ! s"
    and "r7 \<equiv> \<lambda>s. r ! 7 ! s" and "r8 \<equiv> \<lambda>s. r ! 8 ! s" and "r9 \<equiv> \<lambda>s. r ! 9 ! s"
  shows "data2 (tensor r g s) 0 0 = r4 s * r4 s + r7 s / 2 * (r7 s / 2) + r8 s / 2 * (r8 s / 2) + g * (r1 s * r1 s)"
    and "data2 (tensor r g s) 0 1 = r4 s * (r7 s / 2) + r7 s / 2 * r5 s + r8 s / 2 * (r9 s / 2) + g * (r1 s * r2 s)"
    and "data2 (tensor r g s) 0 2 = r4 s * (r8 s / 2) + r7 s / 2 * (r9 s / 2) + r8 s / 2 * r6 s + g * (r1 s * r3 s)"
    and "data2 (tensor r g s) 1 0 = r7 s / 2 * r4 s + r5 s * (r7 s / 2) + r9 s / 2 * (r8 s / 2) + g * (r2 s * r1 s)"
    and "data2 (tensor r g s) 1 1 = r7 s / 2 * (r7 s / 2) + r5 s * r5 s + r9 s / 2 * (r9 s / 2) + g * (r2 s * r2 s)"
    and "data2 (tensor r g s) 1 2 = r7 s / 2 * (r8 s / 2) + r5 s * (r9 s / 2) + r9 s / 2 * r6 s + g * (r2 s * r3 s)"
    and "data2 (tensor r g s) 2 0 = r8 s / 2 * r4 s + r9 s / 2 * (r7 s / 2) + r6 s * (r8 s / 2) + g * (r3 s * r1 s)"
    and "data2 (tensor r g s) 2 1 = r8 s / 2 * (r7 s / 2) + r9 s / 2 * r5 s + r6 s * (r9 s / 2) + g * (r3 s * r2 s)"
    and "data2 (tensor r g s) 2 2 = r8 s / 2 * (r8 s / 2) + r9 s / 2 * (r9 s / 2) + r6 s * r6 s + g * (r3 s * r3 s)"
  unfolding r1_def r2_def r3_def r4_def r5_def r6_def r7_def r8_def r9_def
  by (simp_all add: tensor_def curvature_def gradient_def einsum_ij_jk_def transpose2_def sum3)

lemma sort3:
  assumes "length (l::real list) = 3"
  shows "sort l ! 0 \<le> sort l ! 1 \<and> sort l ! 1 \<le> sort l ! 2 \<and>
         mset [sort l ! 0, sort l ! 1, sort l ! 2] = mset l"
proof -
  have len: "length (sort l) = 3" using assms by simp
  then obtain a b c where abc: "sort l = [a, b, c]"
    by (metis (no_types, lifting) length_0_conv length_Suc_conv numeral_3_eq_3)
  have "sorted [a, b, c]" using sorted_sort [where xs = l] abc by simp
  moreover have "mset [a, b, c] = mset l"
  proof -
    have "mset (sort l) = mset l" by simp
    then show ?thesis unfolding abc .
  qed
  ultimately show ?thesis by (simp add: abc)
qed

lemma sym3_eigen_real_nonneg:
  fixes t00 t01 t02 t11 t12 t22 :: real and lam :: complex and v0 v1 v2 :: complex
  assumes e0: "of_real t00 * v0 + of_real t01 * v1 + of_real t02 * v2 = lam * v0"
    and e1: "of_real t01 * v0 + of_real t11 * v1 + of_real t12 * v2 = lam * v1"
    and e2: "of_real t02 * v0 + of_real t12 * v1 + of_real t22 * v2 = lam * v2"
    and psd: "\<And>x0 x1 x2. 0 \<le> x0 * (t00 * x0 + t01 * x1 + t02 * x2) +
                 x1 * (t01 * x0 + t11 * x1 + t12 * x2) + x2 * (t02 * x0 + t12 * x1 + t22 * x2)"
    and nz: "v0 \<noteq> 0 \<or> v1 \<noteq> 0 \<or> v2 \<noteq> 0"
  shows "Im lam = 0 \<and> 0 \<le> Re lam"
proof -
  define p q where "p = Re lam" and "q = Im lam"
  define x0 x1 x2 y0 y1 y2 where "x0 = Re v0" and "x1 = Re v1" and "x2 = Re v2"
    and "y0 = Im v0" and "y1 = Im v1" and "y2 = Im v2"
  note d = p_def q_def x0_def x1_def x2_def y0_def y1_def y2_def
  have r0: "t00 * x0 + t01 * x1 + t02 * x2 = p * x0 - q * y0"
    using arg_cong [OF e0, of Re] by (simp add: d)
  have r1: "t01 * x0 + t11 * x1 + t12 * x2 = p * x1 - q * y1"
    using arg_cong [OF e1, of Re] by (simp add: d)
  have r2: "t02 * x0 + t12 * x1 + t22 * x2 = p * x2 - q * y2"
    using arg_cong [OF e2, of Re] by (simp add: d)
  have i0: "t00 * y0 + t01 * y1 + t02 * y2 = p * y0 + q * x0"
    using arg_cong [OF e0, of Im] by (simp add: d)
  have i1: "t01 * y0 + t11 * y1 + t12 * y2 = p * y1 + q * x1"
    using arg_cong [OF e1, of Im] by (simp add: d)
  have i2: "t02 * y0 + t12 * y1 + t22 * y2 = p * y2 + q * x2"
    using arg_cong [OF e2, of Im] by (simp add: d)
  define S where "S = x0 * x0 + x1 * x1 + x2 * x2 + (y0 * y0 + y1 * y1 + y2 * y2)"
  have "x0 \<noteq> 0 \<or> x1 \<noteq> 0 \<or> x2 \<noteq> 0 \<or> y0 \<noteq> 0 \<or> y1 \<noteq> 0 \<or> y2 \<noteq> 0"
    using nz by (auto simp: d complex_eq_iff)
  then have "x0 * x0 + x1 * x1 + x2 * x2 + (y0 * y0 + y1 * y1 + y2 * y2) \<noteq> 0"
    by (simp add: add_nonneg_eq_0_iff)
  moreover have "0 \<le> x0 * x0 + x1 * x1 + x2 * x2 + (y0 * y0 + y1 * y1 + y2 * y2)"
    by simp
  ultimately have Spos: "0 < S"
    unfolding S_def by linarith
  have "x0 * (t00 * y0 + t01 * y1 + t02 * y2) + x1 * (t01 * y0 + t11 * y1 + t12 * y2) +
        x2 * (t02 * y0 + t12 * y1 + t22 * y2) =
        y0 * (t00 * x0 + t01 * x1 + t02 * x2) + y1 * (t01 * x0 + t11 * x1 + t12 * x2) +
        y2 * (t02 * x0 + t12 * x1 + t22 * x2)"
    by (simp add: algebra_simps)
  then have "x0 * (p * y0 + q * x0) + x1 * (p * y1 + q * x1) + x2 * (p * y2 + q * x2) =
        y0 * (p * x0 - q * y0) + y1 * (p * x1 - q * y1) + y2 * (p * x2 - q * y2)"
    unfolding r0 r1 r2 i0 i1 i2 .
  then have "q * S = 0"
    unfolding S_def by (simp add: algebra_simps)
  with Spos have q0: "q = 0" by simp
  have "0 \<le> (x0 * (t00 * x0 + t01 * x1 + t02 * x2) +
                 x1 * (t01 * x0 + t11 * x1 + t12 * x2) + x2 * (t02 * x0 + t12 * x1 + t22 * x2)) +
             (y0 * (t00 * y0 + t01 * y1 + t02 * y2) +
                 y1 * (t01 * y0 + t11 * y1 + t12 * y2) + y2 * (t02 * y0 + t12 * y1 + t22 * y2))"
    using psd [of x0 x1 x2] psd [of y0 y1 y2] by linarith
  then have "0 \<le> x0 * (p * x0) + x1 * (p * x1) + x2 * (p * x2) + (y0 * (p * y0) + y1 * (p * y1) + y2 * (p * y2))"
    unfolding r0 r1 r2 i0 i1 i2 q0 by simp
  then have "0 \<le> p * S"
    unfolding S_def by (simp add: algebra_simps)
  with Spos have "0 \<le> p"
    by (simp add: zero_le_mult_iff)
  with q0 show ?thesis by (simp add: p_def q_def)
qed

lemma tensor_quadratic_form:
  fixes a b c d e f g1 g2 g3 g :: real
  assumes "0 \<le> g"
  shows "0 \<le> x0 * ((a * a + d * d + e * e + g * (g1 * g1)) * x0 + (a * d + d * b + e * f + g * (g1 * g2)) * x1
                     + (a * e + d * f + e * c + g * (g1 * g3)) * x2) +
               x1 * ((a * d + d * b + e * f + g * (g1 * g2)) * x0 + (d * d + b * b + f * f + g * (g2 * g2)) * x1
                     + (d * e + b * f + f * c + g * (g2 * g3)) * x2) +
               x2 * ((a * e + d * f + e * c + g * (g1 * g3)) * x0 + (d * e + b * f + f * c + g * (g2 * g3)) * x1
                     + (e * e + f * f + c * c + g * (g3 * g3)) * x2)"
proof -
  have eq: "x0 * ((a * a + d * d + e * e + g * (g1 * g1)) * x0 + (a * d + d * b + e * f + g * (g1 * g2)) * x1
                     + (a * e + d * f + e * c + g * (g1 * g3)) * x2) +
               x1 * ((a * d + d * b + e * f + g * (g1 * g2)) * x0 + (d * d + b * b + f * f + g * (g2 * g2)) * x1
                     + (d * e + b * f + f * c + g * (g2 * g3)) * x2) +
               x2 * ((a * e + d * f + e * c + g * (g1 * g3)) * x0 + (d * e + b * f + f * c + g * (g2 * g3)) * x1
                     + (e * e + f * f + c * c + g * (g3 * g3)) * x2) =
        (a * x0 + d * x1 + e * x2)\<^sup>2 + (d * x0 + b * x1 + f * x2)\<^sup>2 + (e * x0 + f * x1 + c * x2)\<^sup>2 +
        g * (g1 * x0 + g2 * x1 + g3 * x2)\<^sup>2"
    by (simp add: power2_eq_square algebra_simps)
  have "0 \<le> (a * x0 + d * x1 + e * x2)\<^sup>2 + (d * x0 + b * x1 + f * x2)\<^sup>2 + (e * x0 + f * x1 + c * x2)\<^sup>2 +
        g * (g1 * x0 + g2 * x1 + g3 * x2)\<^sup>2"
    using assms by simp
  then show ?thesis
    unfolding eq .
qed

lemma tensor_form_nonneg:
  assumes "0 \<le> g"
  shows "0 \<le> x0 * (data2 (tensor r g s) 0 0 * x0 + data2 (tensor r g s) 0 1 * x1 + data2 (tensor r g s) 0 2 * x2) +
               x1 * (data2 (tensor r g s) 0 1 * x0 + data2 (tensor r g s) 1 1 * x1 + data2 (tensor r g s) 1 2 * x2) +
               x2 * (data2 (tensor r g s) 0 2 * x0 + data2 (tensor r g s) 1 2 * x1 + data2 (tensor r g s) 2 2 * x2)"
  unfolding tensor_entries
  using tensor_quadratic_form [OF assms, where a = "r ! 4 ! s" and d = "r ! 7 ! s / 2"
      and e = "r ! 8 ! s / 2" and ?g1.0 = "r ! 1 ! s" and b = "r ! 5 ! s" and f = "r ! 9 ! s / 2"
      and ?g2.0 = "r ! 2 ! s" and c = "r ! 6 ! s" and ?g3.0 = "r ! 3 ! s"
      and ?x0.0 = x0 and ?x1.0 = x1 and ?x2.0 = x2]
  by (simp add: mult.commute)

lemma tensor_symmetric:
  "data2 (tensor r g s) 1 0 = data2 (tensor r g s) 0 1"
  "data2 (tensor r g s) 2 0 = data2 (tensor r g s) 0 2"
  "data2 (tensor r g s) 2 1 = data2 (tensor r g s) 1 2"
  unfolding tensor_entries by (simp_all add: mult.commute)

lemma tensor_assembly:
  fixes r :: "real list list" and s :: nat
  defines "Ah \<equiv> [[r ! 4 ! s, r ! 7 ! s / 2, r ! 8 ! s / 2],
                  [r ! 7 ! s / 2, r ! 5 ! s, r ! 9 ! s / 2],
                  [r ! 8 ! s / 2, r ! 9 ! s / 2, r ! 6 ! s]]"
    and "gv \<equiv> [r ! 1 ! s, r ! 2 ! s, r ! 3 ! s]"
  assumes "i < 3" "j < 3"
  shows "data2 (tensor r g s) i j = (\<Sum>k<3. Ah ! i ! k * Ah ! j ! k) + g * (gv ! i * gv ! j)"
proof -
  have "(i = 0 \<or> i = 1 \<or> i = 2) \<and> (j = 0 \<or> j = 1 \<or> j = 2)"
    using assms(3,4) by auto
  then show ?thesis
    unfolding Ah_def gv_def sum3 by (elim disjE conjE; simp only: tensor_entries; simp)
qed

lemma tensor_eigen_nonneg:
  fixes lam :: complex and v :: "nat \<Rightarrow> complex"
  assumes g: "0 \<le> g"
    and nz: "\<exists>i<3. v i \<noteq> 0"
    and ev: "\<forall>i<3. (\<Sum>j<3. complex_of_real (data2 (tensor r g s) i j) * v j) = lam * v i"
  shows "Im lam = 0 \<and> 0 \<le> Re lam"
proof -
  from nz have nz': "v 0 \<noteq> 0 \<or> v 1 \<noteq> 0 \<or> v 2 \<noteq> 0"
    by (simp add: ex_less_3)
  have e: "of_real (data2 (tensor r g s) 0 0) * v 0 + of_real (data2 (tensor r g s) 0 1) * v 1 +
           of_real (data2 (tensor r g s) 0 2) * v 2 = lam * v 0"
    "of_real (data2 (tensor r g s) 0 1) * v 0 + of_real (data2 (tensor r g s) 1 1) * v 1 +
           of_real (data2 (tensor r g s) 1 2) * v 2 = lam * v 1"
    "of_real (data2 (tensor r g s) 0 2) * v 0 + of_real (data2 (tensor r g s) 1 2) * v 1 +
           of_real (data2 (tensor r g s) 2 2) * v 2 = lam * v 2"
    using ev unfolding all_less_3 sum3 tensor_symmetric by simp_all
  show ?thesis
    by (rule sym3_eigen_real_nonneg [OF e tensor_form_nonneg [OF g] nz'])
qed

lemma tensor_real_eigen_nonneg:
  fixes lam :: real and v :: "nat \<Rightarrow> real"
  assumes g: "0 \<le> g"
    and nz: "\<exists>i<3. v i \<noteq> 0"
    and ev: "\<forall>i<3. (\<Sum>j<3. data2 (tensor r g s) i j * v j) = lam * v i"
  shows "0 \<le> lam"
proof -
  have nz': "\<exists>i<3. complex_of_real (v i) \<noteq> 0"
    using nz by simp
  have ev': "\<forall>i<3. (\<Sum>j<3. complex_of_real (data2 (tensor r g s) i j) * complex_of_real (v j)) =
                complex_of_real lam * complex_of_real (v i)"
  proof (rule allI, rule impI)
    fix i :: nat assume "i < 3"
    with ev have "(\<Sum>j<3. data2 (tensor r g s) i j * v j) = lam * v i" by blast
    then have "complex_of_real (\<Sum>j<3. data2 (tensor r g s) i j * v j) = complex_of_real (lam * v i)"
      by (rule arg_cong)
    then show "(\<Sum>j<3. complex_of_real (data2 (tensor r g s) i j) * complex_of_real (v j)) =
                complex_of_real lam * complex_of_real (v i)"
      by simp
  qed
  from tensor_eigen_nonneg [OF g nz' ev'] show ?thesis by simp
qed

lemma sort3_member:
  assumes "length (l::real list) = 3"
  shows "sort l ! 0 \<in> set l \<and> sort l ! 1 \<in> set l \<and> sort l ! 2 \<in> set l"
proof -
  have len: "length (sort l) = 3" using assms by simp
  have "sort l ! k \<in> set (sort l)" if "k < 3" for k
    using that len by (metis nth_mem)
  then show ?thesis by simp
qed

lemma eigen_outputs_nth:
  assumes "s < nrsamp"
  shows "fst (eigen_outputs eigvalsh r g nrsamp) ! s = sort (eigvalsh (tensor r g s)) ! 2"
    and "fst (snd (eigen_outputs eigvalsh r g nrsamp)) ! s = sort (eigvalsh (tensor r g s)) ! 1"
    and "snd (snd (eigen_outputs eigvalsh r g nrsamp)) ! s = sort (eigvalsh (tensor r g s)) ! 0"
  using assms by (simp_all add: eigen_outputs_def Let_def)

section \<open>Properties of the kernel construction\<close>

lemma linspace_centred:
  assumes "0 \<le> n"
  shows "linspace (- (of_int (n - 1) / 2)) (of_int (n - 1) / 2) n =
         Inr (map (\<lambda>i. real i - (real (nat n) - 1) / 2) [0..<nat n])"
proof -
  consider "n = 0" | "n = 1" | "2 \<le> n" using assms by linarith
  then show ?thesis
  proof cases
    case 1
    then show ?thesis by (simp add: linspace_def)
  next
    case 2
    then show ?thesis by (simp add: linspace_def)
  next
    case 3
    then have "(of_int (n - 1) / 2 - - (of_int (n - 1) / 2)) / of_int (n - 1) = (1::real)"
      by simp
    moreover have "real (nat n) = of_int n" using 3 by simp
    ultimately show ?thesis
      using 3 by (simp add: linspace_def)
  qed
qed

lemma flatten_meshgrid:
  assumes "xtmp = map (\<lambda>i. real i - (real xs - 1) / 2) [0..<xs]"
    and "ytmp = map (\<lambda>i. real i - (real ys - 1) / 2) [0..<ys]"
    and "ztmp = map (\<lambda>i. real i - (real zs - 1) / 2) [0..<zs]"
  shows "flatten (fst (meshgrid_ij xtmp ytmp ztmp)) = grid_x xs ys zs"
    and "flatten (fst (snd (meshgrid_ij xtmp ytmp ztmp))) = grid_y xs ys zs"
    and "flatten (snd (snd (meshgrid_ij xtmp ytmp ztmp))) = grid_z xs ys zs"
proof -
  have x: "p div (ys * zs) < xs" if "p < xs * ys * zs" for p
    using that by (simp add: less_mult_imp_div_less mult.assoc)
  have y: "p div zs mod ys < ys" if "p < xs * ys * zs" for p
    using that by (cases "ys = 0") simp_all
  have z: "p mod zs < zs" if "p < xs * ys * zs" for p
    using that by (cases "zs = 0") simp_all
  show "flatten (fst (meshgrid_ij xtmp ytmp ztmp)) = grid_x xs ys zs"
    using x by (simp add: flatten_def meshgrid_ij_def grid_x_def assms Let_def)
  show "flatten (fst (snd (meshgrid_ij xtmp ytmp ztmp))) = grid_y xs ys zs"
    using y by (simp add: flatten_def meshgrid_ij_def grid_y_def assms Let_def)
  show "flatten (snd (snd (meshgrid_ij xtmp ytmp ztmp))) = grid_z xs ys zs"
    using z by (simp add: flatten_def meshgrid_ij_def grid_z_def assms Let_def)
qed

lemma grid_length [simp]:
  "length (grid_x xs ys zs) = xs * ys * zs"
  "length (grid_y xs ys zs) = xs * ys * zs"
  "length (grid_z xs ys zs) = xs * ys * zs"
  "length (grid_w xs ys zs sigma) = xs * ys * zs"
  by (simp_all add: grid_x_def grid_y_def grid_z_def grid_w_def)

lemma grid_weights:
  "map (\<lambda>t. exp (- t))
     (np_add (np_add (map (\<lambda>v. v / (2 * (sigma * (real xs - 1))\<^sup>2)) (np_square (grid_x xs ys zs)))
                     (map (\<lambda>v. v / (2 * (sigma * (real ys - 1))\<^sup>2)) (np_square (grid_y xs ys zs))))
             (map (\<lambda>v. v / (2 * (sigma * (real zs - 1))\<^sup>2)) (np_square (grid_z xs ys zs)))) =
   grid_w xs ys zs sigma"
  by (rule nth_equalityI) (simp_all add: np_add_def np_square_def grid_w_def)

lemma lpa3D_init_stages:
  assumes "0 \<le> xs" "0 \<le> ys" "0 \<le> zs"
  shows "lpa3D_init xs ys zs sigma =
     (if nat xs * nat ys * nat zs \<noteq> 0 \<and>
         (sigma * of_int (xs - 1) = 0 \<or> sigma * of_int (ys - 1) = 0 \<or> sigma * of_int (zs - 1) = 0)
      then Inl FloatingPointError
      else lpa_solve (grid_x (nat xs) (nat ys) (nat zs)) (grid_y (nat xs) (nat ys) (nat zs))
             (grid_z (nat xs) (nat ys) (nat zs)) (grid_w (nat xs) (nat ys) (nat zs) sigma)
             (nat xs) (nat ys) (nat zs))"
proof -
  define X Y Z where "X = nat xs" and "Y = nat ys" and "Z = nat zs"
  have r: "of_int (xs - 1) = real X - 1" "of_int (ys - 1) = real Y - 1" "of_int (zs - 1) = real Z - 1"
    using assms by (simp_all add: X_def Y_def Z_def)
  define xtmp ytmp ztmp where "xtmp = map (\<lambda>i. real i - (real X - 1) / 2) [0..<X]"
    and "ytmp = map (\<lambda>i. real i - (real Y - 1) / 2) [0..<Y]"
    and "ztmp = map (\<lambda>i. real i - (real Z - 1) / 2) [0..<Z]"
  have l: "linspace (- (of_int (xs - 1) / 2)) (of_int (xs - 1) / 2) xs = Inr xtmp"
    "linspace (- (of_int (ys - 1) / 2)) (of_int (ys - 1) / 2) ys = Inr ytmp"
    "linspace (- (of_int (zs - 1) / 2)) (of_int (zs - 1) / 2) zs = Inr ztmp"
    using linspace_centred [OF assms(1)] linspace_centred [OF assms(2)] linspace_centred [OF assms(3)]
    unfolding xtmp_def ytmp_def ztmp_def X_def Y_def Z_def by blast+
  note f = flatten_meshgrid [OF xtmp_def ytmp_def ztmp_def]
  have e: "np_square (grid_x X Y Z) = [] \<longleftrightarrow> X * Y * Z = 0"
    "np_square (grid_y X Y Z) = [] \<longleftrightarrow> X * Y * Z = 0"
    "np_square (grid_z X Y Z) = [] \<longleftrightarrow> X * Y * Z = 0"
    by (simp_all add: np_square_def grid_x_def grid_y_def grid_z_def)
  have ok: "np_divide a (2 * c\<^sup>2) = Inr (map (\<lambda>v. v / (2 * c\<^sup>2)) a)" if "c \<noteq> 0 \<or> a = []" for a c
    using that by (auto simp: np_divide_def)
  have bad: "np_divide a (2 * c\<^sup>2) = Inl FloatingPointError" if "c = 0" "a \<noteq> []" for a c
    using that by (simp add: np_divide_def)
  let ?sx = "sigma * (real X - 1)" and ?sy = "sigma * (real Y - 1)" and ?sz = "sigma * (real Z - 1)"
  have u: "lpa3D_init xs ys zs sigma =
      and_then (np_divide (np_square (grid_x X Y Z)) (2 * ?sx\<^sup>2)) (\<lambda>tx.
      and_then (np_divide (np_square (grid_y X Y Z)) (2 * ?sy\<^sup>2)) (\<lambda>ty.
      and_then (np_divide (np_square (grid_z X Y Z)) (2 * ?sz\<^sup>2)) (\<lambda>tz.
      lpa_solve (grid_x X Y Z) (grid_y X Y Z) (grid_z X Y Z)
        (map (\<lambda>t. exp (- t)) (np_add (np_add tx ty) tz)) X Y Z)))"
    unfolding lpa3D_init_def Let_def l and_then_Inr f lpa_solve_def
    unfolding X_def [symmetric] Y_def [symmetric] Z_def [symmetric] r ..
  have "lpa3D_init xs ys zs sigma =
     (if X * Y * Z \<noteq> 0 \<and> (?sx = 0 \<or> ?sy = 0 \<or> ?sz = 0) then Inl FloatingPointError
      else lpa_solve (grid_x X Y Z) (grid_y X Y Z) (grid_z X Y Z) (grid_w X Y Z sigma) X Y Z)"
  proof (cases "X * Y * Z \<noteq> 0 \<and> (?sx = 0 \<or> ?sy = 0 \<or> ?sz = 0)")
    case True
    then have ne: "np_square (grid_x X Y Z) \<noteq> []" "np_square (grid_y X Y Z) \<noteq> []"
      "np_square (grid_z X Y Z) \<noteq> []"
      using e by simp_all
    have "lpa3D_init xs ys zs sigma = Inl FloatingPointError"
    proof (cases "?sx = 0")
      case True
      show ?thesis unfolding u bad [OF True ne(1)] by simp
    next
      case sx: False
      show ?thesis
      proof (cases "?sy = 0")
        case True
        show ?thesis unfolding u ok [OF disjI1 [OF sx]] bad [OF True ne(2)] by simp
      next
        case sy: False
        with sx \<open>X * Y * Z \<noteq> 0 \<and> (?sx = 0 \<or> ?sy = 0 \<or> ?sz = 0)\<close> have sz: "?sz = 0" by blast
        show ?thesis unfolding u ok [OF disjI1 [OF sx]] ok [OF disjI1 [OF sy]] bad [OF sz ne(3)] by simp
      qed
    qed
    then show ?thesis
      unfolding if_P [OF True] .
  next
    case False
    then have c: "?sx \<noteq> 0 \<or> np_square (grid_x X Y Z) = []" "?sy \<noteq> 0 \<or> np_square (grid_y X Y Z) = []"
      "?sz \<noteq> 0 \<or> np_square (grid_z X Y Z) = []"
      using e by auto
    have "lpa3D_init xs ys zs sigma =
        lpa_solve (grid_x X Y Z) (grid_y X Y Z) (grid_z X Y Z) (grid_w X Y Z sigma) X Y Z"
      unfolding u ok [OF c(1)] ok [OF c(2)] ok [OF c(3)] and_then_Inr grid_weights ..
    then show ?thesis
      unfolding if_not_P [OF False] .
  qed
  moreover have "real (nat xs) - 1 = of_int (xs - 1)" "real (nat ys) - 1 = of_int (ys - 1)"
    "real (nat zs) - 1 = of_int (zs - 1)"
    using assms by simp_all
  ultimately show ?thesis
    unfolding X_def Y_def Z_def by (simp only:)
qed

lemma and_then_eq_Inl: "and_then m f = Inl e \<longleftrightarrow> m = Inl e \<or> (\<exists>x. m = Inr x \<and> f x = Inl e)"
  by (cases m) simp_all

lemma dot_error: "dot a b = Inl e \<Longrightarrow> e = ValueError"
  by (simp add: dot_def split: if_splits)

lemma linalg_inv_error: "linalg_inv m = Inl e \<Longrightarrow> e = LinAlgError"
  by (auto simp: linalg_inv_def split: prod.splits if_splits option.splits)

lemma lpa_solve_error:
  assumes "lpa_solve x y z w xs ys zs = Inl e"
  shows "e = ValueError \<or> e = LinAlgError"
  using assms unfolding lpa_solve_def Let_def and_then_eq_Inl
  by (auto dest: dot_error linalg_inv_error)

lemma lpa3D_init_eigenvals_eq: "lpa3D_init_eigenvals xs ys zs sigma = lpa3D_init xs ys zs sigma"
  unfolding lpa3D_init_eigenvals_def lpa3D_init_def ..

section \<open>Properties of the matrix inversion\<close>

lemma row_ok_scale: "row_ok n M row \<Longrightarrow> row_ok n M (row_scale a row)"
  by (simp add: row_ok_def row_scale_def mult.assoc sum_distrib_left [symmetric])

lemma row_ok_sub: "row_ok n M row \<Longrightarrow> row_ok n M p \<Longrightarrow> row_ok n M (row_sub row a p)"
  by (simp add: row_ok_def row_sub_def left_diff_distrib sum_subtractf mult.assoc
      sum_distrib_left [symmetric])

lemma split_pivot_Some:
  "split_pivot j rows = Some (before, p, after) \<Longrightarrow>
   rows = before @ p # after \<and> fst p j \<noteq> 0 \<and> (\<forall>row\<in>set before. fst row j = 0)"
proof (induction rows arbitrary: before)
  case Nil
  then show ?case by simp
next
  case (Cons row rows)
  show ?case
  proof (cases "fst row j \<noteq> 0")
    case True
    with Cons.prems show ?thesis by auto
  next
    case False
    with Cons.prems obtain b where b: "split_pivot j rows = Some (b, p, after)" "before = row # b"
      by (auto split: option.splits)
    from Cons.IH [OF b(1)] False b(2) show ?thesis by simp
  qed
qed

lemma split_pivot_None:
  "split_pivot j rows = None \<Longrightarrow> \<forall>row\<in>set rows. fst row j = 0"
  by (induction rows) (auto split: if_splits option.splits)

lemma gj_inv_step:
  assumes inv: "gj_inv n M k reduced rest"
    and sp: "split_pivot k rest = Some (before, p, after)"
  defines "p' \<equiv> row_scale (1 / fst p k) p"
  defines "clear \<equiv> (\<lambda>row. row_sub row (fst row k) p')"
  shows "gj_inv n M (Suc k) (map clear reduced @ [p']) (map clear (before @ after))"
proof -
  from split_pivot_Some [OF sp] have rest: "rest = before @ p # after" and pk: "fst p k \<noteq> 0"
    by simp_all
  have len: "length reduced = k"
    and ok: "\<And>row. row \<in> set reduced \<union> set rest \<Longrightarrow> row_ok n M row"
    and unit: "\<And>i c. i < k \<Longrightarrow> c < k \<Longrightarrow> fst (reduced ! i) c = (if c = i then 1 else 0)"
    and zero: "\<And>row c. row \<in> set rest \<Longrightarrow> c < k \<Longrightarrow> fst row c = 0"
    using inv by (auto simp: gj_inv_def)
  have p_in: "p \<in> set rest" by (simp add: rest)
  have okp': "row_ok n M p'"
    unfolding p'_def using ok [of p] p_in by (simp add: row_ok_scale)
  have p'k: "fst p' k = 1"
    using pk by (simp add: p'_def row_scale_def)
  have p'c: "fst p' c = 0" if "c < k" for c
    using zero [OF p_in that] by (simp add: p'_def row_scale_def)
  have clear_lt: "fst (clear row) c = fst row c" if "c < k" for row c
    using p'c [OF that] by (simp add: clear_def row_sub_def)
  have clear_k: "fst (clear row) k = 0" for row
    using p'k by (simp add: clear_def row_sub_def)
  have okc: "row_ok n M (clear row)" if "row_ok n M row" for row
    unfolding clear_def using that okp' by (rule row_ok_sub)
  have 1: "length (map clear reduced @ [p']) = Suc k"
    by (simp add: len)
  have 2: "row_ok n M row" if "row \<in> set (map clear reduced @ [p']) \<union> set (map clear (before @ after))" for row
    using that okp' okc ok by (auto simp: rest)
  have 3: "fst ((map clear reduced @ [p']) ! i) c = (if c = i then 1 else 0)" if "i < Suc k" "c < Suc k" for i c
  proof (cases "i < k")
    case True
    then have e: "(map clear reduced @ [p']) ! i = clear (reduced ! i)"
      by (simp add: nth_append len)
    show ?thesis
    proof (cases "c < k")
      case c: True
      show ?thesis unfolding e using clear_lt [OF c] unit [OF True c] by simp
    next
      case False
      with that have "c = k" by simp
      with True show ?thesis unfolding e using clear_k by simp
    qed
  next
    case False
    with that have i: "i = k" by simp
    then have e: "(map clear reduced @ [p']) ! i = p'"
      by (simp add: nth_append len)
    show ?thesis
    proof (cases "c < k")
      case True
      with i show ?thesis unfolding e using p'c by simp
    next
      case False
      with that have "c = k" by simp
      with i show ?thesis unfolding e using p'k by simp
    qed
  qed
  have 4: "fst row c = 0" if "row \<in> set (map clear (before @ after))" "c < Suc k" for row c
  proof -
    from that(1) obtain row0 where r0: "row0 \<in> set rest" "row = clear row0"
      by (auto simp: rest)
    show ?thesis
    proof (cases "c < k")
      case True
      then show ?thesis unfolding r0(2) using clear_lt [OF True] zero [OF r0(1) True] by simp
    next
      case False
      with that have "c = k" by simp
      then show ?thesis unfolding r0(2) using clear_k by simp
    qed
  qed
  show ?thesis
    unfolding gj_inv_def using 1 2 3 4 by blast
qed

lemma gj_null_step:
  assumes nul: "gj_null n M reduced rest"
    and sp: "split_pivot k rest = Some (before, p, after)"
  defines "p' \<equiv> row_scale (1 / fst p k) p"
  defines "clear \<equiv> (\<lambda>row. row_sub row (fst row k) p')"
  shows "gj_null n M (map clear reduced @ [p']) (map clear (before @ after))"
  unfolding gj_null_def
proof (rule allI, rule impI)
  fix u
  assume a: "\<forall>row\<in>set (map clear reduced @ [p']) \<union> set (map clear (before @ after)).
                (\<Sum>c<n. fst row c * u c) = 0"
  from split_pivot_Some [OF sp] have rest: "rest = before @ p # after" and pk: "fst p k \<noteq> 0"
    by simp_all
  have p'0: "(\<Sum>c<n. fst p' c * u c) = 0"
    using a by simp
  have "(\<Sum>c<n. fst p' c * u c) = (1 / fst p k) * (\<Sum>c<n. fst p c * u c)"
    by (simp add: p'_def row_scale_def sum_distrib_left mult.assoc)
  with p'0 pk have p0: "(\<Sum>c<n. fst p c * u c) = 0"
    by simp
  have cl: "(\<Sum>c<n. fst row c * u c) = 0" if "(\<Sum>c<n. fst (clear row) c * u c) = 0" for row
  proof -
    have "(\<Sum>c<n. fst (clear row) c * u c) =
          (\<Sum>c<n. fst row c * u c) - fst row k * (\<Sum>c<n. fst p' c * u c)"
      by (simp add: clear_def row_sub_def left_diff_distrib sum_subtractf sum_distrib_left mult.assoc)
    with that p'0 show ?thesis by simp
  qed
  have "(\<Sum>c<n. fst row c * u c) = 0" if "row \<in> set reduced \<union> set rest" for row
  proof (cases "row = p")
    case True
    then show ?thesis using p0 by simp
  next
    case False
    with that have "clear row \<in> set (map clear reduced @ [p']) \<union> set (map clear (before @ after))"
      by (auto simp: rest)
    with a have "(\<Sum>c<n. fst (clear row) c * u c) = 0" by blast
    then show ?thesis by (rule cl)
  qed
  with nul show "\<forall>i<n. (\<Sum>c<n. M i c * u c) = 0"
    unfolding gj_null_def by blast
qed

lemma gauss_jordan_sound:
  assumes "gj_inv n M k reduced rest" "k \<le> n"
    and "gauss_jordan [k..<n] reduced rest = Some out"
  shows "length out = n \<and>
         (\<forall>i<n. \<forall>c<n. (\<Sum>j<n. snd (out ! i) j * M j c) = (if c = i then 1 else 0))"
  using assms
proof (induction "n - k" arbitrary: k reduced rest)
  case 0
  then have k: "k = n" by simp
  with "0.prems" have out: "out = reduced" by simp
  have len: "length reduced = n" 
    and ok: "\<And>row. row \<in> set reduced \<Longrightarrow> row_ok n M row"
    and unit: "\<And>i c. i < n \<Longrightarrow> c < n \<Longrightarrow> fst (reduced ! i) c = (if c = i then 1 else 0)"
    using "0.prems"(1) unfolding k gj_inv_def by auto
  have "(\<Sum>j<n. snd (reduced ! i) j * M j c) = (if c = i then 1 else 0)" if "i < n" "c < n" for i c
  proof -
    have "row_ok n M (reduced ! i)" using ok that(1) len by simp
    then have "(\<Sum>j<n. snd (reduced ! i) j * M j c) = fst (reduced ! i) c"
      using that(2) by (simp add: row_ok_def)
    with unit [OF that] show ?thesis by simp
  qed
  with len show ?case unfolding out by blast
next
  case (Suc d)
  then have kn: "k < n" by simp
  then have upt: "[k..<n] = k # [Suc k..<n]" by (rule upt_conv_Cons)
  from Suc.prems(3) obtain before p after where
    sp: "split_pivot k rest = Some (before, p, after)"
    unfolding upt by (auto split: option.splits)
  define p' where "p' = row_scale (1 / fst p k) p"
  define clear where "clear = (\<lambda>row. row_sub row (fst row k) p')"
  have g: "gauss_jordan [Suc k..<n] (map clear reduced @ [p']) (map clear (before @ after)) = Some out"
    using Suc.prems(3) unfolding upt by (simp add: sp Let_def p'_def clear_def)
  have i: "gj_inv n M (Suc k) (map clear reduced @ [p']) (map clear (before @ after))"
    unfolding clear_def p'_def by (rule gj_inv_step [OF Suc.prems(1) sp])
  have "d = n - Suc k" using Suc.hyps(2) by simp
  from Suc.hyps(1) [OF this i _ g] kn show ?case by simp
qed

lemma sum_delta_left:
  "(\<Sum>i<n. (if i = k then 1 else 0) * f i) = (if k < (n::nat) then f k else (0::real))"
proof -
  have "(\<Sum>i<n. (if i = k then 1 else 0) * f i) = (\<Sum>i<n. if i = k then f i else 0)"
    by (rule sum.cong) simp_all
  then show ?thesis by simp
qed

lemma no_pivot_null_vector:
  assumes inv: "gj_inv n M k reduced rest"
    and nul: "gj_null n M reduced rest"
    and kn: "k < n"
    and np: "\<forall>row\<in>set rest. fst row k = 0"
  shows "\<exists>u. (\<exists>c<n. u c \<noteq> 0) \<and> (\<forall>i<n. (\<Sum>c<n. M i c * u c) = 0)"
proof -
  define u :: "nat \<Rightarrow> real" where
    "u = (\<lambda>c. if c = k then 1 else if c < k then - fst (reduced ! c) k else 0)"
  have len: "length reduced = k"
    and unit: "\<And>i c. i < k \<Longrightarrow> c < k \<Longrightarrow> fst (reduced ! i) c = (if c = i then 1 else 0)"
    and zero: "\<And>row c. row \<in> set rest \<Longrightarrow> c < k \<Longrightarrow> fst row c = 0"
    using inv by (auto simp: gj_inv_def)
  have split: "(\<Sum>c<n. fst row c * u c) = (\<Sum>c<k. fst row c * u c) + fst row k" for row
  proof -
    have "(\<Sum>c<Suc k. fst row c * u c) = (\<Sum>c<n. fst row c * u c)"
      using kn by (intro sum.mono_neutral_left) (auto simp: u_def)
    then show ?thesis by (simp add: u_def)
  qed
  have "(\<Sum>c<n. fst row c * u c) = 0" if "row \<in> set reduced \<union> set rest" for row
  proof (cases "row \<in> set rest")
    case True
    then have "(\<Sum>c<k. fst row c * u c) = 0"
      using zero by simp
    with True np show ?thesis unfolding split by simp
  next
    case False
    with that obtain i where i: "i < k" "row = reduced ! i"
      by (auto simp: in_set_conv_nth len)
    have "(\<Sum>c<k. fst row c * u c) = (\<Sum>c<k. if c = i then - fst (reduced ! i) k else 0)"
      by (rule sum.cong) (auto simp: i unit u_def)
    also have "\<dots> = - fst (reduced ! i) k"
      using i(1) by simp
    finally show ?thesis unfolding split by (simp add: i(2))
  qed
  with nul have "\<forall>i<n. (\<Sum>c<n. M i c * u c) = 0"
    unfolding gj_null_def by blast
  moreover have "u k \<noteq> 0" by (simp add: u_def)
  ultimately show ?thesis using kn by blast
qed

lemma gauss_jordan_fails:
  assumes "gj_inv n M k reduced rest" "gj_null n M reduced rest" "k \<le> n"
    and "gauss_jordan [k..<n] reduced rest = None"
  shows "\<exists>u. (\<exists>c<n. u c \<noteq> 0) \<and> (\<forall>i<n. (\<Sum>c<n. M i c * u c) = 0)"
  using assms
proof (induction "n - k" arbitrary: k reduced rest)
  case 0
  then show ?case by simp
next
  case (Suc d)
  then have kn: "k < n" by simp
  then have upt: "[k..<n] = k # [Suc k..<n]" by (rule upt_conv_Cons)
  show ?case
  proof (cases "split_pivot k rest")
    case None
    from split_pivot_None [OF this] show ?thesis
      by (rule no_pivot_null_vector [OF Suc.prems(1,2) kn])
  next
    case (Some t)
    then obtain before p after where sp: "split_pivot k rest = Some (before, p, after)"
      by (cases t) auto
    define p' where "p' = row_scale (1 / fst p k) p"
    define clear where "clear = (\<lambda>row. row_sub row (fst row k) p')"
    have g: "gauss_jordan [Suc k..<n] (map clear reduced @ [p']) (map clear (before @ after)) = None"
      using Suc.prems(4) unfolding upt by (simp add: sp Let_def p'_def clear_def)
    have i: "gj_inv n M (Suc k) (map clear reduced @ [p']) (map clear (before @ after))"
      unfolding clear_def p'_def by (rule gj_inv_step [OF Suc.prems(1) sp])
    have j: "gj_null n M (map clear reduced @ [p']) (map clear (before @ after))"
      unfolding clear_def p'_def by (rule gj_null_step [OF Suc.prems(2) sp])
    have "d = n - Suc k" using Suc.hyps(2) by simp
    from Suc.hyps(1) [OF this i j _ g] kn show ?thesis by simp
  qed
qed

lemma gj_inv_init: "gj_inv n (data2 m) 0 [] (unit_rows m n)"
  by (auto simp: gj_inv_def unit_rows_def row_ok_def sum_delta_left)

lemma gj_null_init: "gj_null n (data2 m) [] (unit_rows m n)"
  by (auto simp: gj_null_def unit_rows_def)

lemma linalg_inv_sound:
  assumes "linalg_inv m = Inr mi"
  shows "\<exists>n. shape2 m = (n, n) \<and> shape2 mi = (n, n) \<and>
             (\<forall>i<n. \<forall>c<n. (\<Sum>j<n. data2 mi i j * data2 m j c) = (if c = i then 1 else 0))"
proof -
  obtain n n' where sh: "shape2 m = (n, n')" by (cases "shape2 m")
  with assms have nn: "n' = n"
    by (auto simp: linalg_inv_def split: if_splits)
  from assms obtain out where out: "gauss_jordan [0..<n] [] (unit_rows m n) = Some out"
    and mi: "mi = \<lparr>shape2 = (n, n), data2 = (\<lambda>i. snd (out ! i))\<rparr>"
    by (auto simp: linalg_inv_def sh nn unit_rows_def split: option.splits)
  from gauss_jordan_sound [OF gj_inv_init _ out]
  have "\<forall>i<n. \<forall>c<n. (\<Sum>j<n. snd (out ! i) j * data2 m j c) = (if c = i then 1 else 0)"
    by simp
  then show ?thesis
    by (simp add: sh nn mi)
qed

lemma linalg_inv_complete:
  assumes "shape2 m = (n, n)"
    and "\<And>u. (\<forall>i<n. (\<Sum>c<n. data2 m i c * u c) = 0) \<Longrightarrow> (\<forall>c<n. u c = 0)"
  shows "\<exists>mi. linalg_inv m = Inr mi"
proof (cases "gauss_jordan [0..<n] [] (unit_rows m n)")
  case None
  from gauss_jordan_fails [OF gj_inv_init gj_null_init _ None]
  obtain u where "\<exists>c<n. u c \<noteq> 0" "\<forall>i<n. (\<Sum>c<n. data2 m i c * u c) = 0"
    by auto
  with assms(2) [of u] show ?thesis by blast
next
  case (Some out)
  then show ?thesis
    by (simp add: linalg_inv_def assms(1) unit_rows_def)
qed

lemma linalg_inv_singular:
  assumes "shape2 m = (n, n)"
    and "\<forall>i<n. (\<Sum>c<n. data2 m i c * u c) = 0" "k < n" "u k \<noteq> 0"
  shows "linalg_inv m = Inl LinAlgError"
proof (cases "linalg_inv m")
  case (Inl e)
  then show ?thesis using linalg_inv_error by blast
next
  case (Inr mi)
  from linalg_inv_sound [OF this] assms(1)
  have id: "\<forall>i<n. \<forall>c<n. (\<Sum>j<n. data2 mi i j * data2 m j c) = (if c = i then 1 else 0)"
    by auto
  have "u k = (\<Sum>c<n. (if c = k then 1 else 0) * u c)"
    using assms(3) by (simp add: sum_delta_left)
  also have "\<dots> = (\<Sum>c<n. (\<Sum>j<n. data2 mi k j * data2 m j c) * u c)"
    using id assms(3) by simp
  also have "\<dots> = (\<Sum>c<n. \<Sum>j<n. data2 mi k j * (data2 m j c * u c))"
    by (simp add: sum_distrib_right mult.assoc)
  also have "\<dots> = (\<Sum>j<n. \<Sum>c<n. data2 mi k j * (data2 m j c * u c))"
    by (rule sum.swap)
  also have "\<dots> = (\<Sum>j<n. data2 mi k j * (\<Sum>c<n. data2 m j c * u c))"
    by (simp add: sum_distrib_left)
  also have "\<dots> = 0"
    using assms(2) by simp
  finally show ?thesis using assms(4) by simp
qed

section \<open>Exactness of the kernel set\<close>

lemma lpa_design_shape [simp]: "shape2 (lpa_design x y z) = (length x, 10)"
  by (simp add: lpa_design_def dstack_reshape_def)

lemma lpa_solve_cases:
  assumes "length w = length x"
  shows "lpa_solve x y z w xs ys zs =
           (case linalg_inv (lpa_normal x y z w) of
              Inl e \<Rightarrow> Inl e
            | Inr minv \<Rightarrow> Inr (reshape_kernels (lpa_deconv x y z w minv) xs ys zs))"
proof -
  let ?A = "lpa_design x y z"
  let ?W = "diagflat w"
  have 1: "dot (transpose2 ?A) ?W =
      Inr \<lparr>shape2 = (10, length w),
           data2 = (\<lambda>i k. \<Sum>j<length x. data2 (transpose2 ?A) i j * data2 ?W j k)\<rparr>"
    by (simp add: dot_def transpose2_def diagflat_def assms)
  have 2: "dot \<lparr>shape2 = (10, length w),
           data2 = (\<lambda>i k. \<Sum>j<length x. data2 (transpose2 ?A) i j * data2 ?W j k)\<rparr> ?A =
      Inr (lpa_normal x y z w)"
    by (simp add: dot_def lpa_normal_def assms)
  have 3: "and_then (dot minv (transpose2 ?A)) (\<lambda>invAt.
             and_then (dot invAt ?W) (\<lambda>DB. Inr (reshape_kernels DB xs ys zs))) =
           Inr (reshape_kernels (lpa_deconv x y z w minv) xs ys zs)"
    if "linalg_inv (lpa_normal x y z w) = Inr minv" for minv
  proof -
    from linalg_inv_sound [OF that] have sh: "shape2 minv = (10, 10)"
      by (auto simp: lpa_normal_def)
    have a: "dot minv (transpose2 ?A) =
        Inr \<lparr>shape2 = (10, length x),
             data2 = (\<lambda>i k. \<Sum>j<10. data2 minv i j * data2 (transpose2 ?A) j k)\<rparr>"
      by (simp add: dot_def transpose2_def sh)
    have b: "dot \<lparr>shape2 = (10, length x),
             data2 = (\<lambda>i k. \<Sum>j<10. data2 minv i j * data2 (transpose2 ?A) j k)\<rparr> ?W =
        Inr (lpa_deconv x y z w minv)"
      by (simp add: dot_def diagflat_def lpa_deconv_def assms)
    show ?thesis
      unfolding a and_then_Inr b ..
  qed
  have u: "lpa_solve x y z w xs ys zs =
      and_then (linalg_inv (lpa_normal x y z w)) (\<lambda>minv.
      and_then (dot minv (transpose2 ?A)) (\<lambda>invAt.
      and_then (dot invAt ?W) (\<lambda>DB. Inr (reshape_kernels DB xs ys zs))))"
    unfolding lpa_solve_def Let_def lpa_design_def [symmetric] 1 and_then_Inr 2 ..
  show ?thesis
  proof (cases "linalg_inv (lpa_normal x y z w)")
    case (Inl e)
    then show ?thesis unfolding u by simp
  next
    case (Inr minv)
    then show ?thesis unfolding u using 3 [OF Inr] by simp
  qed
qed

lemma less_10_cases:
  assumes "k < (10::nat)"
  obtains "k = 0" | "k = 1" | "k = 2" | "k = 3" | "k = 4" | "k = 5" | "k = 6" | "k = 7" | "k = 8" | "k = 9"
proof -
  have "k = 0 \<or> k = 1 \<or> k = 2 \<or> k = 3 \<or> k = 4 \<or> k = 5 \<or> k = 6 \<or> k = 7 \<or> k = 8 \<or> k = 9"
    using assms by arith
  then show ?thesis using that by blast
qed

lemma design_entry:
  assumes "p < length x" "length y = length x" "length z = length x" "k < 10"
  shows "data2 (lpa_design x y z) p k = monomial k (x ! p) (y ! p) (z ! p)"
  using assms(4)
  by (rule less_10_cases)
    (simp_all add: lpa_design_def dstack_reshape_def monomial_def np_mul_def assms(1-3))

lemma normal_entry:
  assumes "length w = length x"
  shows "data2 (lpa_normal x y z w) i k =
         (\<Sum>j<length x. data2 (lpa_design x y z) j i * w ! j * data2 (lpa_design x y z) j k)"
proof -
  have "(\<Sum>q<length x. data2 (transpose2 (lpa_design x y z)) i q * data2 (diagflat w) q j) =
        data2 (lpa_design x y z) j i * w ! j" if "j < length x" for j
  proof -
    have "(\<Sum>q<length x. data2 (transpose2 (lpa_design x y z)) i q * data2 (diagflat w) q j) =
          (\<Sum>q<length x. if q = j then data2 (lpa_design x y z) q i * w ! q else 0)"
      by (rule sum.cong) (simp_all add: transpose2_def diagflat_def)
    also have "\<dots> = data2 (lpa_design x y z) j i * w ! j"
      using that by simp
    finally show ?thesis .
  qed
  then show ?thesis
    by (simp add: lpa_normal_def assms)
qed

lemma deconv_entry:
  assumes "p < length x"
  shows "data2 (lpa_deconv x y z w minv) c p =
         (\<Sum>q<10. data2 minv c q * data2 (lpa_design x y z) p q) * w ! p"
proof -
  have "data2 (lpa_deconv x y z w minv) c p =
        (\<Sum>j<length x. if j = p then (\<Sum>q<10. data2 minv c q * data2 (lpa_design x y z) j q) * w ! j else 0)"
    unfolding lpa_deconv_def
    by (simp add: transpose2_def diagflat_def if_distrib [of "\<lambda>t. _ * t"] cong: if_cong)
  also have "\<dots> = (\<Sum>q<10. data2 minv c q * data2 (lpa_design x y z) p q) * w ! p"
    using assms by simp
  finally show ?thesis .
qed

lemma deconv_design_identity:
  assumes "linalg_inv (lpa_normal x y z w) = Inr minv" "length w = length x" "c < 10" "k < 10"
  shows "(\<Sum>p<length x. data2 (lpa_deconv x y z w minv) c p * data2 (lpa_design x y z) p k) =
         (if k = c then 1 else 0)"
proof -
  let ?A = "data2 (lpa_design x y z)"
  from linalg_inv_sound [OF assms(1)]
  have id: "(\<Sum>j<10. data2 minv c j * data2 (lpa_normal x y z w) j k) = (if k = c then 1 else 0)"
    using assms(3,4) by (auto simp: lpa_normal_def)
  have "(\<Sum>p<length x. data2 (lpa_deconv x y z w minv) c p * ?A p k) =
        (\<Sum>p<length x. \<Sum>q<10. data2 minv c q * (?A p q * w ! p * ?A p k))"
    by (rule sum.cong) (simp_all add: deconv_entry sum_distrib_right mult.assoc)
  also have "\<dots> = (\<Sum>q<10. \<Sum>p<length x. data2 minv c q * (?A p q * w ! p * ?A p k))"
    by (rule sum.swap)
  also have "\<dots> = (\<Sum>q<10. data2 minv c q * data2 (lpa_normal x y z w) q k)"
    by (simp add: normal_entry [OF assms(2)] sum_distrib_left)
  finally show ?thesis
    using id by simp
qed

lemma reshape_kernels_nth:
  assumes "c < 10"
  shows "reshape_kernels db xs ys zs ! c =
         \<lparr>shape3 = (xs, ys, zs), data3 = (\<lambda>i j k. data2 db c ((i * ys + j) * zs + k))\<rparr>"
  using assms by (simp add: reshape_kernels_def)

lemma reshape_kernels_length [simp]: "length (reshape_kernels db xs ys zs) = 10"
  by (simp add: reshape_kernels_def)

lemma sum10: "(\<Sum>i<(10::nat). f i) = f 0 + f 1 + f 2 + f 3 + f 4 + f 5 + f 6 + f 7 + f 8 + (f 9 :: real)"
  by (simp add: lessThan_nat_numeral lessThan_Suc)

lemma all_less_10:
  "(\<forall>k<(10::nat). P k) \<longleftrightarrow> P 0 \<and> P 1 \<and> P 2 \<and> P 3 \<and> P 4 \<and> P 5 \<and> P 6 \<and> P 7 \<and> P 8 \<and> P 9"
proof
  assume "\<forall>k<10. P k"
  then show "P 0 \<and> P 1 \<and> P 2 \<and> P 3 \<and> P 4 \<and> P 5 \<and> P 6 \<and> P 7 \<and> P 8 \<and> P 9" by simp
next
  assume a: "P 0 \<and> P 1 \<and> P 2 \<and> P 3 \<and> P 4 \<and> P 5 \<and> P 6 \<and> P 7 \<and> P 8 \<and> P 9"
  show "\<forall>k<10. P k"
  proof (intro allI impI)
    fix k :: nat assume "k < 10"
    then show "P k" by (rule less_10_cases) (use a in simp_all)
  qed
qed

lemma quadric_expand:
  "quadric u x y z = u 0 + u 1 * x + u 2 * y + u 3 * z + u 4 * (x * x) + u 5 * (y * y) + u 6 * (z * z) +
                     u 7 * (x * y) + u 8 * (x * z) + u 9 * (y * z)"
  by (simp add: quadric_def sum10 monomial_def)

lemma quadric_unisolvent:
  assumes "quadric u a b c = 0" "quadric u (a + 1) b c = 0" "quadric u (a + 2) b c = 0"
    and "quadric u a (b + 1) c = 0" "quadric u a (b + 2) c = 0"
    and "quadric u a b (c + 1) = 0" "quadric u a b (c + 2) = 0"
    and "quadric u (a + 1) (b + 1) c = 0" "quadric u (a + 1) b (c + 1) = 0"
    and "quadric u a (b + 1) (c + 1) = 0"
  shows "\<forall>k<10. u k = 0"
proof -
  have "2 * u 4 = quadric u (a + 2) b c - 2 * quadric u (a + 1) b c + quadric u a b c"
    unfolding quadric_expand by (simp add: algebra_simps)
  then have u4: "u 4 = 0" using assms by simp
  have "2 * u 5 = quadric u a (b + 2) c - 2 * quadric u a (b + 1) c + quadric u a b c"
    unfolding quadric_expand by (simp add: algebra_simps)
  then have u5: "u 5 = 0" using assms by simp
  have "2 * u 6 = quadric u a b (c + 2) - 2 * quadric u a b (c + 1) + quadric u a b c"
    unfolding quadric_expand by (simp add: algebra_simps)
  then have u6: "u 6 = 0" using assms by simp
  have "u 7 = quadric u (a + 1) (b + 1) c - quadric u (a + 1) b c - quadric u a (b + 1) c + quadric u a b c"
    unfolding quadric_expand by (simp add: algebra_simps)
  then have u7: "u 7 = 0" using assms by simp
  have "u 8 = quadric u (a + 1) b (c + 1) - quadric u (a + 1) b c - quadric u a b (c + 1) + quadric u a b c"
    unfolding quadric_expand by (simp add: algebra_simps)
  then have u8: "u 8 = 0" using assms by simp
  have "u 9 = quadric u a (b + 1) (c + 1) - quadric u a (b + 1) c - quadric u a b (c + 1) + quadric u a b c"
    unfolding quadric_expand by (simp add: algebra_simps)
  then have u9: "u 9 = 0" using assms by simp
  have "u 1 = quadric u (a + 1) b c - quadric u a b c"
    unfolding quadric_expand u4 u5 u6 u7 u8 u9 by (simp add: algebra_simps)
  then have u1: "u 1 = 0" using assms by simp
  have "u 2 = quadric u a (b + 1) c - quadric u a b c"
    unfolding quadric_expand u4 u5 u6 u7 u8 u9 by (simp add: algebra_simps)
  then have u2: "u 2 = 0" using assms by simp
  have "u 3 = quadric u a b (c + 1) - quadric u a b c"
    unfolding quadric_expand u4 u5 u6 u7 u8 u9 by (simp add: algebra_simps)
  then have u3: "u 3 = 0" using assms by simp
  have "u 0 = quadric u a b c"
    unfolding quadric_expand u1 u2 u3 u4 u5 u6 u7 u8 u9 by simp
  then have u0: "u 0 = 0" using assms by simp
  show ?thesis
    unfolding all_less_10 using u0 u1 u2 u3 u4 u5 u6 u7 u8 u9 by simp
qed

lemma flat_index:
  fixes X Y Z ii jj kk :: nat
  assumes "ii < X" "jj < Y" "kk < Z"
  defines "p \<equiv> (ii * Y + jj) * Z + kk"
  shows "p < X * Y * Z" "p div (Y * Z) = ii" "p div Z mod Y = jj" "p mod Z = kk"
proof -
  have r: "jj * Z + kk < Y * Z"
  proof -
    have "jj * Z + kk < jj * Z + Z" using assms(3) by simp
    also have "\<dots> = Suc jj * Z" by simp
    also have "\<dots> \<le> Y * Z" using assms(2) by (intro mult_le_mono1) simp
    finally show ?thesis .
  qed
  have p: "p = ii * (Y * Z) + (jj * Z + kk)"
    by (simp add: p_def algebra_simps)
  have "p < ii * (Y * Z) + Y * Z" unfolding p using r by simp
  also have "\<dots> = Suc ii * (Y * Z)" by simp
  also have "\<dots> \<le> X * (Y * Z)" using assms(1) by (intro mult_le_mono1) simp
  finally show "p < X * Y * Z" by (simp add: mult.assoc)
  show "p div (Y * Z) = ii"
  proof -
    define m where "m = Y * Z"
    have "jj * Z + kk < m" using r by (simp add: m_def)
    then have "(ii * m + (jj * Z + kk)) div m = ii" by simp
    then show ?thesis unfolding p m_def .
  qed
  have "p div Z = ii * Y + jj" unfolding p_def using assms(3) by simp
  then show "p div Z mod Y = jj" using assms(2) by simp
  show "p mod Z = kk" unfolding p_def using assms(3) by simp
qed

lemma grid_nth:
  assumes "ii < X" "jj < Y" "kk < Z"
  shows "grid_x X Y Z ! ((ii * Y + jj) * Z + kk) = real ii - (real X - 1) / 2"
    and "grid_y X Y Z ! ((ii * Y + jj) * Z + kk) = real jj - (real Y - 1) / 2"
    and "grid_z X Y Z ! ((ii * Y + jj) * Z + kk) = real kk - (real Z - 1) / 2"
  using flat_index [OF assms] by (simp_all add: grid_x_def grid_y_def grid_z_def)

lemma grid_w_pos: "p < X * Y * Z \<Longrightarrow> 0 < grid_w X Y Z sigma ! p"
  by (simp add: grid_w_def)

lemma normal_quadratic_form:
  assumes "length w = length x"
  shows "(\<Sum>i<10. u i * (\<Sum>c<10. data2 (lpa_normal x y z w) i c * u c)) =
         (\<Sum>p<length x. w ! p * (\<Sum>c<10. u c * data2 (lpa_design x y z) p c)\<^sup>2)"
proof -
  let ?A = "data2 (lpa_design x y z)"
  have "(\<Sum>i<10. u i * (\<Sum>c<10. data2 (lpa_normal x y z w) i c * u c)) =
        (\<Sum>i<10. \<Sum>c<10. \<Sum>p<length x. w ! p * ((u i * ?A p i) * (u c * ?A p c)))"
    unfolding normal_entry [OF assms] sum_distrib_left sum_distrib_right
    by (intro sum.cong refl) (simp add: mult_ac)
  also have "\<dots> = (\<Sum>i<10. \<Sum>p<length x. \<Sum>c<10. w ! p * ((u i * ?A p i) * (u c * ?A p c)))"
    by (intro sum.cong refl sum.swap)
  also have "\<dots> = (\<Sum>p<length x. \<Sum>i<10. \<Sum>c<10. w ! p * ((u i * ?A p i) * (u c * ?A p c)))"
    by (rule sum.swap)
  also have "\<dots> = (\<Sum>p<length x. w ! p * (\<Sum>c<10. u c * ?A p c)\<^sup>2)"
  proof (rule sum.cong [OF refl])
    fix p
    have "(\<Sum>c<10. u c * ?A p c)\<^sup>2 = (\<Sum>i<10. \<Sum>c<10. (u i * ?A p i) * (u c * ?A p c))"
      unfolding power2_eq_square by (rule sum_product)
    then show "(\<Sum>i<10. \<Sum>c<10. w ! p * ((u i * ?A p i) * (u c * ?A p c))) =
               w ! p * (\<Sum>c<10. u c * ?A p c)\<^sup>2"
      by (simp add: sum_distrib_left)
  qed
  finally show ?thesis .
qed

lemma grid_design_entry:
  assumes "p < X * Y * Z" "k < 10"
  shows "data2 (lpa_design (grid_x X Y Z) (grid_y X Y Z) (grid_z X Y Z)) p k =
         monomial k (grid_x X Y Z ! p) (grid_y X Y Z ! p) (grid_z X Y Z ! p)"
  using assms by (intro design_entry) simp_all

lemma lpa_normal_nonsingular:
  assumes "3 \<le> X" "3 \<le> Y" "3 \<le> Z"
    and "\<forall>i<10. (\<Sum>c<10. data2 (lpa_normal (grid_x X Y Z) (grid_y X Y Z) (grid_z X Y Z)
                                (grid_w X Y Z sigma)) i c * u c) = 0"
  shows "\<forall>c<10. u c = 0"
proof -
  let ?x = "grid_x X Y Z" and ?y = "grid_y X Y Z" and ?z = "grid_z X Y Z" and ?w = "grid_w X Y Z sigma"
  let ?A = "data2 (lpa_design ?x ?y ?z)"
  have len: "length ?w = length ?x" by simp
  have "(\<Sum>p<length ?x. ?w ! p * (\<Sum>c<10. u c * ?A p c)\<^sup>2) = 0"
    unfolding normal_quadratic_form [OF len, symmetric] using assms(4) by simp
  moreover have "\<forall>p\<in>{..<length ?x}. 0 \<le> ?w ! p * (\<Sum>c<10. u c * ?A p c)\<^sup>2"
    using grid_w_pos [of _ X Y Z sigma] by (simp add: less_imp_le)
  ultimately have "\<forall>p\<in>{..<length ?x}. ?w ! p * (\<Sum>c<10. u c * ?A p c)\<^sup>2 = 0"
    using sum_nonneg_eq_0_iff [of "{..<length ?x}" "\<lambda>p. ?w ! p * (\<Sum>c<10. u c * ?A p c)\<^sup>2"]
    by blast
  then have z: "(\<Sum>c<10. u c * ?A p c) = 0" if "p < X * Y * Z" for p
  proof -
    assume a: "\<forall>p\<in>{..<length ?x}. ?w ! p * (\<Sum>c<10. u c * ?A p c)\<^sup>2 = 0"
    have "p \<in> {..<length ?x}" using that by simp
    with a have "?w ! p * (\<Sum>c<10. u c * ?A p c)\<^sup>2 = 0" by blast
    moreover have "?w ! p \<noteq> 0" using grid_w_pos [OF that, of sigma] by simp
    ultimately show ?thesis by simp
  qed
  have q: "quadric u (real ii - (real X - 1) / 2) (real jj - (real Y - 1) / 2) (real kk - (real Z - 1) / 2) = 0"
    if "ii < X" "jj < Y" "kk < Z" for ii jj kk
  proof -
    let ?p = "(ii * Y + jj) * Z + kk"
    have p: "?p < X * Y * Z" using flat_index(1) [OF that] .
    have "(\<Sum>c<10. u c * ?A ?p c) = quadric u (?x ! ?p) (?y ! ?p) (?z ! ?p)"
      unfolding quadric_def by (intro sum.cong refl) (simp add: grid_design_entry [OF p])
    then show ?thesis
      using z [OF p] by (simp add: grid_nth [OF that])
  qed
  define a b c where "a = - ((real X - 1) / 2)" and "b = - ((real Y - 1) / 2)" and "c = - ((real Z - 1) / 2)"
  have i: "0 < X" "1 < X" "2 < X" "0 < Y" "1 < Y" "2 < Y" "0 < Z" "1 < Z" "2 < Z"
    using assms(1-3) by simp_all
  have s: "real 0 - (real n - 1) / 2 = - ((real n - 1) / 2)"
    "real 1 - (real n - 1) / 2 = - ((real n - 1) / 2) + 1"
    "real 2 - (real n - 1) / 2 = - ((real n - 1) / 2) + 2" for n
    by simp_all
  show ?thesis
    by (rule quadric_unisolvent [of u a b c])
      (use q [OF i(1) i(4) i(7)] q [OF i(2) i(4) i(7)] q [OF i(3) i(4) i(7)]
        q [OF i(1) i(5) i(7)] q [OF i(1) i(6) i(7)] q [OF i(1) i(4) i(8)] q [OF i(1) i(4) i(9)]
        q [OF i(2) i(5) i(7)] q [OF i(2) i(4) i(8)] q [OF i(1) i(5) i(8)]
        in \<open>simp_all only: s a_def b_def c_def\<close>)
qed

lemma sum_flat2:
  fixes g :: "nat \<Rightarrow> real"
  shows "(\<Sum>p<a * b. g p) = (\<Sum>i<a. \<Sum>j<b. g (i * b + j))"
proof -
  have "(\<Sum>p<a * b. g p) = (\<Sum>i<a. sum g {i * b..<i * b + b})"
    by (rule sum.nat_group [symmetric])
  also have "\<dots> = (\<Sum>i<a. \<Sum>j<b. g (i * b + j))"
  proof (rule sum.cong [OF refl])
    fix i
    have "sum g {0 + i * b..<b + i * b} = (\<Sum>j = 0..<b. g (j + i * b))"
      by (rule sum.shift_bounds_nat_ivl)
    then show "sum g {i * b..<i * b + b} = (\<Sum>j<b. g (i * b + j))"
      by (simp add: add.commute atLeast0LessThan)
  qed
  finally show ?thesis .
qed

lemma sum_flat3:
  fixes g :: "nat \<Rightarrow> real"
  shows "(\<Sum>p<X * Y * Z. g p) = (\<Sum>i<X. \<Sum>j<Y. \<Sum>k<Z. g ((i * Y + j) * Z + k))"
proof -
  have "(\<Sum>p<X * Y * Z. g p) = (\<Sum>q<X * Y. \<Sum>k<Z. g (q * Z + k))"
    by (rule sum_flat2)
  also have "\<dots> = (\<Sum>i<X. \<Sum>j<Y. \<Sum>k<Z. g ((i * Y + j) * Z + k))"
    by (rule sum_flat2)
  finally show ?thesis .
qed

lemma sum_flip:
  fixes g :: "nat \<Rightarrow> real"
  shows "(\<Sum>i<n. g (n - 1 - i)) = (\<Sum>i<n. g i)"
  using sum.nat_diff_reindex [of g n] by simp

lemma lpa_normal_invertible:
  assumes "3 \<le> X" "3 \<le> Y" "3 \<le> Z"
  shows "\<exists>minv. linalg_inv (lpa_normal (grid_x X Y Z) (grid_y X Y Z) (grid_z X Y Z) (grid_w X Y Z sigma)) = Inr minv"
proof -
  let ?x = "grid_x X Y Z" and ?y = "grid_y X Y Z" and ?z = "grid_z X Y Z" and ?w = "grid_w X Y Z sigma"
  have sh: "shape2 (lpa_normal ?x ?y ?z ?w) = (10, 10)"
    by (simp add: lpa_normal_def)
  show ?thesis
    by (rule linalg_inv_complete [OF sh]) (rule lpa_normal_nonsingular [OF assms])
qed

lemma lpa_solve_Inr:
  assumes "length w = length x" "linalg_inv (lpa_normal x y z w) = Inr minv"
  shows "lpa_solve x y z w xs ys zs = Inr (reshape_kernels (lpa_deconv x y z w minv) xs ys zs)"
  unfolding lpa_solve_cases [OF assms(1)] assms(2) by simp

lemma lpa_solve_Inl:
  assumes "length w = length x" "linalg_inv (lpa_normal x y z w) = Inl e"
  shows "lpa_solve x y z w xs ys zs = Inl e"
  unfolding lpa_solve_cases [OF assms(1)] assms(2) by simp

lemma lpa3D_init_regular:
  assumes "2 \<le> xs" "2 \<le> ys" "2 \<le> zs" "sigma \<noteq> 0"
  shows "lpa3D_init xs ys zs sigma =
         lpa_solve (grid_x (nat xs) (nat ys) (nat zs)) (grid_y (nat xs) (nat ys) (nat zs))
             (grid_z (nat xs) (nat ys) (nat zs)) (grid_w (nat xs) (nat ys) (nat zs) sigma)
             (nat xs) (nat ys) (nat zs)"
proof -
  have pos: "0 \<le> xs" "0 \<le> ys" "0 \<le> zs"
    using assms(1-3) by simp_all
  have "of_int (xs - 1) \<noteq> (0::real)" "of_int (ys - 1) \<noteq> (0::real)" "of_int (zs - 1) \<noteq> (0::real)"
    using assms(1-3) by simp_all
  then have "sigma * of_int (xs - 1) \<noteq> 0" "sigma * of_int (ys - 1) \<noteq> 0" "sigma * of_int (zs - 1) \<noteq> 0"
    using assms(4) by simp_all
  then have nz: "\<not> (nat xs * nat ys * nat zs \<noteq> 0 \<and>
         (sigma * of_int (xs - 1) = 0 \<or> sigma * of_int (ys - 1) = 0 \<or> sigma * of_int (zs - 1) = 0))"
    by blast
  show ?thesis
    using lpa3D_init_stages [OF pos, of sigma] unfolding if_not_P [OF nz] .
qed

lemma lpa3D_init_total:
  assumes "3 \<le> xs" "3 \<le> ys" "3 \<le> zs" "sigma \<noteq> 0"
  shows "\<exists>minv. linalg_inv (lpa_normal (grid_x (nat xs) (nat ys) (nat zs)) (grid_y (nat xs) (nat ys) (nat zs))
                     (grid_z (nat xs) (nat ys) (nat zs)) (grid_w (nat xs) (nat ys) (nat zs) sigma)) = Inr minv \<and>
           lpa3D_init xs ys zs sigma =
             Inr (reshape_kernels (lpa_deconv (grid_x (nat xs) (nat ys) (nat zs)) (grid_y (nat xs) (nat ys) (nat zs))
                     (grid_z (nat xs) (nat ys) (nat zs)) (grid_w (nat xs) (nat ys) (nat zs) sigma) minv)
                   (nat xs) (nat ys) (nat zs))"
proof -
  have g: "3 \<le> nat xs" "3 \<le> nat ys" "3 \<le> nat zs"
    using assms(1-3) by simp_all
  have h: "2 \<le> xs" "2 \<le> ys" "2 \<le> zs"
    using assms(1-3) by simp_all
  from lpa_normal_invertible [OF g, of sigma] obtain minv where
    minv: "linalg_inv (lpa_normal (grid_x (nat xs) (nat ys) (nat zs)) (grid_y (nat xs) (nat ys) (nat zs))
                     (grid_z (nat xs) (nat ys) (nat zs)) (grid_w (nat xs) (nat ys) (nat zs) sigma)) = Inr minv" ..
  have len: "length (grid_w (nat xs) (nat ys) (nat zs) sigma) = length (grid_x (nat xs) (nat ys) (nat zs))"
    by simp
  show ?thesis
    unfolding lpa3D_init_regular [OF h assms(4)] lpa_solve_Inr [OF len minv]
    using minv by (intro exI conjI) (rule minv, rule refl)
qed

section \<open>Application of the kernel set\<close>

lemma monomial_neg:
  assumes "k < 10"
  shows "monomial k (- x) (- y) (- z) = parity_sign k * monomial k x y z"
  using assms by (rule less_10_cases) (simp_all add: monomial_def parity_sign_def)

lemma quadric_neg:
  "quadric c (- x) (- y) (- z) = (\<Sum>k<10. c k * parity_sign k * monomial k x y z)"
  unfolding quadric_def by (intro sum.cong refl) (simp add: monomial_neg)

lemma deconv_quadric:
  assumes "linalg_inv (lpa_normal x y z w) = Inr minv" "length w = length x"
    "length y = length x" "length z = length x" "k < 10"
  shows "(\<Sum>p<length x. data2 (lpa_deconv x y z w minv) k p * quadric c (- (x ! p)) (- (y ! p)) (- (z ! p))) =
         parity_sign k * c k"
proof -
  let ?D = "data2 (lpa_deconv x y z w minv)" and ?A = "data2 (lpa_design x y z)"
  have "(\<Sum>p<length x. ?D k p * quadric c (- (x ! p)) (- (y ! p)) (- (z ! p))) =
        (\<Sum>p<length x. \<Sum>j<10. c j * parity_sign j * (?D k p * ?A p j))"
    unfolding quadric_neg sum_distrib_left
    by (intro sum.cong refl) (simp add: design_entry assms(3,4))
  also have "\<dots> = (\<Sum>j<10. \<Sum>p<length x. c j * parity_sign j * (?D k p * ?A p j))"
    by (rule sum.swap)
  also have "\<dots> = (\<Sum>j<10. c j * parity_sign j * (\<Sum>p<length x. ?D k p * ?A p j))"
    by (simp add: sum_distrib_left)
  also have "\<dots> = (\<Sum>j<10. c j * parity_sign j * (if j = k then 1 else 0))"
    by (intro sum.cong refl) (simp add: deconv_design_identity [OF assms(1,2,5)])
  also have "\<dots> = (\<Sum>j<10. if j = k then c j * parity_sign j else 0)"
    by (intro sum.cong refl) simp
  also have "\<dots> = parity_sign k * c k"
    using assms(5) by simp
  finally show ?thesis .
qed

lemma window_sum_kernel:
  fixes X Y Z :: nat
  assumes sa: "shape3 arr = (Xa, Ya, Za)"
    and minv: "linalg_inv (lpa_normal (grid_x X Y Z) (grid_y X Y Z) (grid_z X Y Z) (grid_w X Y Z sigma)) = Inr minv"
    and k: "k < 10"
    and samp: "\<And>ii jj kk. ii < X \<Longrightarrow> jj < Y \<Longrightarrow> kk < Z \<Longrightarrow>
        data3 arr (Xa div 2 - X div 2 + ii) (Ya div 2 - Y div 2 + jj) (zz - Z div 2 + kk) =
        quadric c (real ii - (real X - 1) / 2) (real jj - (real Y - 1) / 2) (real kk - (real Z - 1) / 2)"
  shows "window_sum arr (reshape_kernels (lpa_deconv (grid_x X Y Z) (grid_y X Y Z) (grid_z X Y Z)
            (grid_w X Y Z sigma) minv) X Y Z ! k) zz = parity_sign k * c k"
proof -
  let ?x = "grid_x X Y Z" and ?y = "grid_y X Y Z" and ?z = "grid_z X Y Z" and ?w = "grid_w X Y Z sigma"
  let ?D = "data2 (lpa_deconv ?x ?y ?z ?w minv)"
  define H where "H = (\<lambda>ii jj kk. ?D k ((ii * Y + jj) * Z + kk) *
      quadric c (- (real ii - (real X - 1) / 2)) (- (real jj - (real Y - 1) / 2)) (- (real kk - (real Z - 1) / 2)))"
  have flip: "- (real (n - 1 - i) - (real n - 1) / 2) = real i - (real n - 1) / 2" if "i < n" for i n :: nat
    using that by (simp add: of_nat_diff field_simps)
  have "window_sum arr (reshape_kernels (lpa_deconv ?x ?y ?z ?w minv) X Y Z ! k) zz =
        (\<Sum>ii<X. \<Sum>jj<Y. \<Sum>kk<Z.
           ?D k (((X - 1 - ii) * Y + (Y - 1 - jj)) * Z + (Z - 1 - kk)) *
           data3 arr (Xa div 2 - X div 2 + ii) (Ya div 2 - Y div 2 + jj) (zz - Z div 2 + kk))"
    unfolding window_sum_def reshape_kernels_nth [OF k] sa by simp
  also have "\<dots> = (\<Sum>ii<X. \<Sum>jj<Y. \<Sum>kk<Z. H (X - 1 - ii) (Y - 1 - jj) (Z - 1 - kk))"
  proof (intro sum.cong refl)
    fix ii jj kk
    assume "ii \<in> {..<X}" "jj \<in> {..<Y}" "kk \<in> {..<Z}"
    then have b: "ii < X" "jj < Y" "kk < Z" by simp_all
    show "?D k (((X - 1 - ii) * Y + (Y - 1 - jj)) * Z + (Z - 1 - kk)) *
           data3 arr (Xa div 2 - X div 2 + ii) (Ya div 2 - Y div 2 + jj) (zz - Z div 2 + kk) =
          H (X - 1 - ii) (Y - 1 - jj) (Z - 1 - kk)"
      unfolding H_def samp [OF b] flip [OF b(1)] flip [OF b(2)] flip [OF b(3)] ..
  qed
  also have "\<dots> = (\<Sum>ii<X. \<Sum>jj<Y. \<Sum>kk<Z. H (X - 1 - ii) (Y - 1 - jj) kk)"
  proof (rule sum.cong [OF refl], rule sum.cong [OF refl])
    fix ii jj
    show "(\<Sum>kk<Z. H (X - 1 - ii) (Y - 1 - jj) (Z - 1 - kk)) = (\<Sum>kk<Z. H (X - 1 - ii) (Y - 1 - jj) kk)"
      by (rule sum_flip)
  qed
  also have "\<dots> = (\<Sum>ii<X. \<Sum>jj<Y. \<Sum>kk<Z. H (X - 1 - ii) jj kk)"
  proof (rule sum.cong [OF refl])
    fix ii
    show "(\<Sum>jj<Y. \<Sum>kk<Z. H (X - 1 - ii) (Y - 1 - jj) kk) = (\<Sum>jj<Y. \<Sum>kk<Z. H (X - 1 - ii) jj kk)"
      by (rule sum_flip [of "\<lambda>j. \<Sum>kk<Z. H (X - 1 - ii) j kk"])
  qed
  also have "\<dots> = (\<Sum>ii<X. \<Sum>jj<Y. \<Sum>kk<Z. H ii jj kk)"
    by (rule sum_flip [of "\<lambda>i. \<Sum>jj<Y. \<Sum>kk<Z. H i jj kk"])
  also have "\<dots> = (\<Sum>ii<X. \<Sum>jj<Y. \<Sum>kk<Z.
        ?D k ((ii * Y + jj) * Z + kk) *
        quadric c (- (?x ! ((ii * Y + jj) * Z + kk))) (- (?y ! ((ii * Y + jj) * Z + kk)))
                  (- (?z ! ((ii * Y + jj) * Z + kk))))"
    unfolding H_def by (intro sum.cong refl) (simp add: grid_nth)
  also have "\<dots> = (\<Sum>p<X * Y * Z. ?D k p * quadric c (- (?x ! p)) (- (?y ! p)) (- (?z ! p)))"
    by (rule sum_flat3 [symmetric])
  also have "\<dots> = parity_sign k * c k"
    using deconv_quadric [OF minv _ _ _ k, of c] by simp
  finally show ?thesis .
qed

lemma collect_loop:
  assumes "\<And>k. k \<in> set ks \<Longrightarrow> g k = Inr (f k)"
  shows "for_loop ks (\<lambda>i out. and_then (g i) (\<lambda>r. Inr (out @ [r]))) acc = Inr (acc @ map f ks)"
  using assms by (induction ks arbitrary: acc) simp_all

lemma coef_outputs_Inr:
  assumes "\<And>k. k < 10 \<Longrightarrow> sconvolve Input (kernels ! k) = Inr (f k)"
  shows "coef_outputs kernels Input = Inr (map f [0..<10])"
proof -
  have r: "py_range 0 10 = map int [0..<10]"
    using py_range_0 [of 10] by simp
  have "for_loop (map int [0..<10])
          (\<lambda>i out. and_then (sconvolve Input (kernels ! nat i)) (\<lambda>r. Inr (out @ [r]))) [] =
        Inr ([] @ map (\<lambda>i. f (nat i)) (map int [0..<10]))"
    by (rule collect_loop) (auto simp: assms)
  then show ?thesis
    unfolding coef_outputs_def r by (simp add: comp_def)
qed

lemma kernel_design_identity:
  fixes X Y Z :: nat
  assumes minv: "linalg_inv (lpa_normal (grid_x X Y Z) (grid_y X Y Z) (grid_z X Y Z) (grid_w X Y Z sigma)) = Inr minv"
    and k: "k < 10" and j: "j < 10"
  shows "(\<Sum>ix<X. \<Sum>iy<Y. \<Sum>iz<Z.
            data3 (reshape_kernels (lpa_deconv (grid_x X Y Z) (grid_y X Y Z) (grid_z X Y Z)
                     (grid_w X Y Z sigma) minv) X Y Z ! k) ix iy iz *
            monomial j (real ix - (real X - 1) / 2) (real iy - (real Y - 1) / 2) (real iz - (real Z - 1) / 2)) =
         (if j = k then 1 else 0)"
proof -
  let ?x = "grid_x X Y Z" and ?y = "grid_y X Y Z" and ?z = "grid_z X Y Z" and ?w = "grid_w X Y Z sigma"
  let ?D = "data2 (lpa_deconv ?x ?y ?z ?w minv)" and ?A = "data2 (lpa_design ?x ?y ?z)"
  have "(\<Sum>ix<X. \<Sum>iy<Y. \<Sum>iz<Z.
            data3 (reshape_kernels (lpa_deconv ?x ?y ?z ?w minv) X Y Z ! k) ix iy iz *
            monomial j (real ix - (real X - 1) / 2) (real iy - (real Y - 1) / 2) (real iz - (real Z - 1) / 2)) =
        (\<Sum>ix<X. \<Sum>iy<Y. \<Sum>iz<Z.
            ?D k ((ix * Y + iy) * Z + iz) * ?A ((ix * Y + iy) * Z + iz) j)"
    unfolding reshape_kernels_nth [OF k]
    by (intro sum.cong refl) (simp add: grid_design_entry flat_index(1) j grid_nth)
  also have "\<dots> = (\<Sum>p<X * Y * Z. ?D k p * ?A p j)"
    by (rule sum_flat3 [symmetric])
  also have "\<dots> = (if j = k then 1 else 0)"
    using deconv_design_identity [OF minv _ k j] by simp
  finally show ?thesis .
qed

lemma lpa_kernels_apply:
  fixes X Y Z :: nat
  assumes "3 \<le> X" "3 \<le> Y" "3 \<le> Z" "sigma \<noteq> 0"
  shows "\<exists>K. lpa3D_init (int X) (int Y) (int Z) sigma = Inr K \<and> length K = 10 \<and>
           (\<forall>k<10. shape3 (K ! k) = (X, Y, Z)) \<and>
           (\<forall>k<10. \<forall>j<10.
              (\<Sum>ix<X. \<Sum>iy<Y. \<Sum>iz<Z. data3 (K ! k) ix iy iz *
                  monomial j (real ix - (real X - 1) / 2) (real iy - (real Y - 1) / 2)
                    (real iz - (real Z - 1) / 2)) = (if j = k then 1 else 0)) \<and>
           (\<forall>arr Xa Ya Za c zz k.
              shape3 arr = (Xa, Ya, Za) \<and> X \<le> Xa \<and> Y \<le> Ya \<and> Z div 2 \<le> zz \<and> zz < Za - Z div 2 \<and> k < 10 \<and>
              (\<forall>ii<X. \<forall>jj<Y. \<forall>kk<Z.
                  data3 arr (Xa div 2 - X div 2 + ii) (Ya div 2 - Y div 2 + jj) (zz - Z div 2 + kk) =
                  quadric c (real ii - (real X - 1) / 2) (real jj - (real Y - 1) / 2)
                    (real kk - (real Z - 1) / 2)) \<longrightarrow>
              (\<exists>out. sconvolve arr (K ! k) = Inr out \<and> length out = Za \<and>
                     out ! zz = parity_sign k * c k))"
proof -
  let ?x = "grid_x X Y Z" and ?y = "grid_y X Y Z" and ?z = "grid_z X Y Z" and ?w = "grid_w X Y Z sigma"
  have i: "3 \<le> int X" "3 \<le> int Y" "3 \<le> int Z"
    using assms(1-3) by simp_all
  from lpa3D_init_total [OF i assms(4)] obtain minv where
    minv: "linalg_inv (lpa_normal ?x ?y ?z ?w) = Inr minv"
    and K: "lpa3D_init (int X) (int Y) (int Z) sigma =
              Inr (reshape_kernels (lpa_deconv ?x ?y ?z ?w minv) X Y Z)"
    by auto
  let ?K = "reshape_kernels (lpa_deconv ?x ?y ?z ?w minv) X Y Z"
  have sh: "shape3 (?K ! k) = (X, Y, Z)" if "k < 10" for k
    by (simp add: reshape_kernels_nth [OF that])
  have app: "\<exists>out. sconvolve arr (?K ! k) = Inr out \<and> length out = Za \<and> out ! zz = parity_sign k * c k"
    if a: "shape3 arr = (Xa, Ya, Za)" "X \<le> Xa" "Y \<le> Ya" "Z div 2 \<le> zz" "zz < Za - Z div 2" "k < 10"
      and samp: "\<forall>ii<X. \<forall>jj<Y. \<forall>kk<Z.
                  data3 arr (Xa div 2 - X div 2 + ii) (Ya div 2 - Y div 2 + jj) (zz - Z div 2 + kk) =
                  quadric c (real ii - (real X - 1) / 2) (real jj - (real Y - 1) / 2)
                    (real kk - (real Z - 1) / 2)"
    for arr Xa Ya Za c zz k
  proof -
    from sconvolve_total [OF a(1) sh [OF a(6)] a(2,3)] obtain out where
      out: "sconvolve arr (?K ! k) = Inr out" "length out = Za"
        "\<forall>z<Za. out ! z = (if Z div 2 \<le> z \<and> z < Za - Z div 2 then window_sum arr (?K ! k) z else 0)"
      by blast
    have "zz < Za" using a(5) by linarith
    with out(3) a(4,5) have "out ! zz = window_sum arr (?K ! k) zz" by simp
    also have "\<dots> = parity_sign k * c k"
      by (rule window_sum_kernel [OF a(1) minv a(6)]) (use samp in blast)
    finally show ?thesis using out(1,2) by blast
  qed
  have id: "(\<Sum>ix<X. \<Sum>iy<Y. \<Sum>iz<Z. data3 (?K ! k) ix iy iz *
                  monomial j (real ix - (real X - 1) / 2) (real iy - (real Y - 1) / 2)
                    (real iz - (real Z - 1) / 2)) = (if j = k then 1 else 0)" if "k < 10" "j < 10" for k j
    by (rule kernel_design_identity [OF minv that])
  show ?thesis
  proof (intro exI conjI)
    show "lpa3D_init (int X) (int Y) (int Z) sigma = Inr ?K" by (rule K)
    show "length ?K = 10" by simp
    show "\<forall>k<10. shape3 (?K ! k) = (X, Y, Z)" using sh by blast
    show "\<forall>k<10. \<forall>j<10.
              (\<Sum>ix<X. \<Sum>iy<Y. \<Sum>iz<Z. data3 (?K ! k) ix iy iz *
                  monomial j (real ix - (real X - 1) / 2) (real iy - (real Y - 1) / 2)
                    (real iz - (real Z - 1) / 2)) = (if j = k then 1 else 0)"
      using id by blast
    show "\<forall>arr Xa Ya Za c zz k.
              shape3 arr = (Xa, Ya, Za) \<and> X \<le> Xa \<and> Y \<le> Ya \<and> Z div 2 \<le> zz \<and> zz < Za - Z div 2 \<and> k < 10 \<and>
              (\<forall>ii<X. \<forall>jj<Y. \<forall>kk<Z.
                  data3 arr (Xa div 2 - X div 2 + ii) (Ya div 2 - Y div 2 + jj) (zz - Z div 2 + kk) =
                  quadric c (real ii - (real X - 1) / 2) (real jj - (real Y - 1) / 2)
                    (real kk - (real Z - 1) / 2)) \<longrightarrow>
              (\<exists>out. sconvolve arr (?K ! k) = Inr out \<and> length out = Za \<and>
                     out ! zz = parity_sign k * c k)"
      using app by blast
  qed
qed

lemma lpa_normal_null_vector:
  assumes "length w = length x" "length y = length x" "length z = length x"
    and "\<And>p. p < length x \<Longrightarrow> (\<Sum>c<10. monomial c (x ! p) (y ! p) (z ! p) * u c) = 0"
    and "i < 10"
  shows "(\<Sum>c<10. data2 (lpa_normal x y z w) i c * u c) = 0"
proof -
  let ?A = "data2 (lpa_design x y z)"
  have "(\<Sum>c<10. data2 (lpa_normal x y z w) i c * u c) =
        (\<Sum>c<10. \<Sum>p<length x. ?A p i * w ! p * (?A p c * u c))"
    unfolding normal_entry [OF assms(1)] sum_distrib_right
    by (intro sum.cong refl) (simp add: mult.assoc)
  also have "\<dots> = (\<Sum>p<length x. \<Sum>c<10. ?A p i * w ! p * (?A p c * u c))"
    by (rule sum.swap)
  also have "\<dots> = (\<Sum>p<length x. ?A p i * w ! p * (\<Sum>c<10. ?A p c * u c))"
    by (simp add: sum_distrib_left)
  also have "\<dots> = (\<Sum>p<length x. ?A p i * w ! p * (\<Sum>c<10. monomial c (x ! p) (y ! p) (z ! p) * u c))"
    by (intro sum.cong refl) (simp add: design_entry assms(2,3))
  also have "\<dots> = 0"
    using assms(4) by simp
  finally show ?thesis .
qed

lemma lpa3D_init_extent_two:
  assumes "2 \<le> ys" "2 \<le> zs" "sigma \<noteq> 0"
  shows "lpa3D_init 2 ys zs sigma = Inl LinAlgError"
proof -
  define Y Z where "Y = nat ys" and "Z = nat zs"
  let ?x = "grid_x 2 Y Z" and ?y = "grid_y 2 Y Z" and ?z = "grid_z 2 Y Z" and ?w = "grid_w 2 Y Z sigma"
  define u :: "nat \<Rightarrow> real" where "u = (\<lambda>c. if c = 4 then 1 else if c = 0 then - (1 / 4) else 0)"
  have s: "lpa3D_init 2 ys zs sigma = lpa_solve ?x ?y ?z ?w 2 Y Z"
    using lpa3D_init_regular [OF _ assms, of 2] by (simp add: Y_def Z_def)
  have x: "?x ! p * ?x ! p = 1 / 4" if "p < 2 * Y * Z" for p
  proof -
    have "p div (Y * Z) < 2"
      using that by (simp add: less_mult_imp_div_less mult.assoc)
    then have "p div (Y * Z) = 0 \<or> p div (Y * Z) = 1" by linarith
    then show ?thesis
      using that by (auto simp: grid_x_def)
  qed
  have n: "(\<Sum>c<10. monomial c (?x ! p) (?y ! p) (?z ! p) * u c) = 0" if "p < length ?x" for p
    using that x [of p] by (simp add: sum10 monomial_def u_def)
  have sh: "shape2 (lpa_normal ?x ?y ?z ?w) = (10, 10)"
    by (simp add: lpa_normal_def)
  have "\<forall>i<10. (\<Sum>c<10. data2 (lpa_normal ?x ?y ?z ?w) i c * u c) = 0"
    using lpa_normal_null_vector [of ?w ?x ?y ?z u, OF _ _ _ n] by simp
  then have "linalg_inv (lpa_normal ?x ?y ?z ?w) = Inl LinAlgError"
    by (rule linalg_inv_singular [OF sh, where k = 4]) (simp_all add: u_def)
  then have "lpa_solve ?x ?y ?z ?w 2 Y Z = Inl LinAlgError"
    by (intro lpa_solve_Inl) simp_all
  with s show ?thesis by simp
qed

lemma lpa3D_init_neg: "lpa3D_init xs ys zs (- sigma) = lpa3D_init xs ys zs sigma"
  unfolding lpa3D_init_def Let_def by (simp only: mult_minus_left power2_minus)

lemma coef_outputs_exact:
  assumes sh: "\<forall>k<10. shape3 (K ! k) = (X, Y, Z)"
    and app: "\<forall>k<10. \<exists>out. sconvolve arr (K ! k) = Inr out \<and> P k out"
  shows "\<exists>R. coef_outputs K arr = Inr R \<and> length R = 10 \<and> (\<forall>k<10. P k (R ! k))"
proof -
  define f where "f = (\<lambda>k. case sconvolve arr (K ! k) of Inr out \<Rightarrow> out | Inl e \<Rightarrow> [])"
  have f: "sconvolve arr (K ! k) = Inr (f k) \<and> P k (f k)" if "k < 10" for k
    using app that by (auto simp: f_def)
  then have "coef_outputs K arr = Inr (map f [0..<10])"
    by (intro coef_outputs_Inr) simp
  moreover have "\<forall>k<10. P k (map f [0..<10] ! k)"
    using f by simp
  ultimately show ?thesis by simp
qed

lemma quadric_const: "quadric (\<lambda>k. if k = 0 then v else 0) x y z = v"
  by (simp add: quadric_expand)

lemma list3: "length xs = 3 \<Longrightarrow> xs = [xs ! 0, xs ! 1, xs ! 2]"
proof -
  assume "length xs = 3"
  then obtain a b c where "xs = [a, b, c]"
    by (metis (no_types, lifting) length_0_conv length_Suc_conv numeral_3_eq_3)
  then show ?thesis by simp
qed

section \<open>Properties of binary64 rounding\<close>

lemma power_int_2_nonneg: "0 \<le> k \<Longrightarrow> power_int (2::real) k = 2 ^ nat k"
  by (simp add: power_int_def)

lemma power_int_2_neg: "0 \<le> k \<Longrightarrow> power_int (2::real) (- k) = 1 / 2 ^ nat k"
  by (simp add: power_int_minus_divide power_int_def power_one_over)

lemma binary_exponent_bounds:
  assumes "0 < a"
  shows "power_int 2 (binary_exponent a) \<le> a \<and> a < power_int 2 (binary_exponent a + 1)"
proof (cases "1 \<le> a")
  case True
  define n where "n = \<lfloor>a\<rfloor>"
  have n: "0 < n" using True by (simp add: n_def)
  define e where "e = bitlen n - 1"
  from bitlen_bounds [OF n] have b: "2 ^ nat e \<le> n" "n < 2 ^ nat (bitlen n)"
    by (simp_all add: e_def)
  have e0: "0 \<le> e"
    using n bitlen_eq_zero_iff [of n] bitlen_nonneg [of n] by (simp add: e_def)
  have be: "binary_exponent a = e"
    using True by (simp add: binary_exponent_def n_def e_def)
  have "real_of_int (2 ^ nat e) \<le> real_of_int n" using b(1) by (simp only: of_int_le_iff)
  also have "\<dots> \<le> a" by (simp add: n_def)
  finally have lo: "power_int 2 e \<le> a"
    using e0 by (simp add: power_int_def)
  have "n + 1 \<le> 2 ^ nat (bitlen n)" using b(2) by simp
  then have "real_of_int (n + 1) \<le> real_of_int (2 ^ nat (bitlen n))" by (simp only: of_int_le_iff)
  moreover have "a < real_of_int (n + 1)" by (simp add: n_def)
  ultimately have "a < 2 ^ nat (e + 1)" by (simp add: e_def)
  then have hi: "a < power_int 2 (e + 1)"
    using e0 by (simp add: power_int_def)
  from lo hi show ?thesis unfolding be by simp
next
  case False
  then have a1: "a < 1" by simp
  define t where "t = 1 / a"
  have t1: "1 < t" using assms a1 by (simp add: t_def)
  define n where "n = \<lceil>t\<rceil> - 1"
  have n: "0 < n" using t1 by (simp add: n_def less_ceiling_iff)
  define k where "k = bitlen n"
  from bitlen_bounds [OF n] have b: "2 ^ nat (k - 1) \<le> n" "n < 2 ^ nat k"
    by (simp_all add: k_def)
  have k1: "1 \<le> k"
    using n bitlen_eq_zero_iff [of n] bitlen_nonneg [of n] by (simp add: k_def)
  have be: "binary_exponent a = - k"
    using False by (simp add: binary_exponent_def n_def k_def t_def)
  have "n + 1 \<le> 2 ^ nat k" using b(2) by simp
  then have "real_of_int (n + 1) \<le> real_of_int (2 ^ nat k)" by (simp only: of_int_le_iff)
  moreover have "t \<le> real_of_int (n + 1)" by (simp add: n_def)
  ultimately have "t \<le> 2 ^ nat k" by simp
  then have "1 / 2 ^ nat k \<le> 1 / t"
    using t1 by (intro divide_left_mono) simp_all
  then have lo: "power_int 2 (- k) \<le> a"
    using k1 assms by (simp add: power_int_2_neg t_def)
  have "real_of_int (2 ^ nat (k - 1)) \<le> real_of_int n" using b(1) by (simp only: of_int_le_iff)
  then have "2 ^ nat (k - 1) \<le> real_of_int n" by simp
  moreover have "real_of_int n < t" by (simp add: n_def) linarith
  ultimately have "2 ^ nat (k - 1) < t" by linarith
  then have "1 / t < 1 / 2 ^ nat (k - 1)"
    using t1 by (intro divide_strict_left_mono) simp_all
  then have "a < 1 / 2 ^ nat (k - 1)"
    using assms by (simp add: t_def)
  moreover have "power_int (2::real) (- (k - 1)) = 1 / 2 ^ nat (k - 1)"
    using k1 by (intro power_int_2_neg) simp
  ultimately have hi: "a < power_int 2 (- k + 1)"
    by simp
  from lo hi show ?thesis unfolding be by simp
qed

lemma round_half_even_error: "\<bar>of_int (round_half_even y) - y\<bar> \<le> 1 / 2"
proof -
  have "of_int \<lfloor>y\<rfloor> \<le> y" "y < of_int \<lfloor>y\<rfloor> + 1" by linarith+
  then show ?thesis
    by (auto simp: round_half_even_def Let_def abs_le_iff)
qed

lemma round_half_even_int [simp]: "round_half_even (of_int k) = k"
  by (simp add: round_half_even_def)

lemma b64_round_normal:
  assumes lo: "1 / 2 ^ 1022 \<le> \<bar>x\<bar>" and hi: "\<bar>x\<bar> \<le> 2 ^ 1023"
  shows "\<exists>r. b64_round x = Finite r \<and> \<bar>r - x\<bar> \<le> \<bar>x\<bar> / 2 ^ 53"
proof -
  have "(0::real) < 1 / 2 ^ 1022" by simp
  with lo have a0: "0 < \<bar>x\<bar>" by linarith
  then have x0: "x \<noteq> 0" by simp
  define e where "e = binary_exponent \<bar>x\<bar>"
  from binary_exponent_bounds [OF a0]
  have b: "power_int 2 e \<le> \<bar>x\<bar>" "\<bar>x\<bar> < power_int 2 (e + 1)"
    by (simp_all add: e_def)
  have e: "- 1022 \<le> e"
  proof (rule ccontr)
    assume "\<not> - 1022 \<le> e"
    then have "e + 1 \<le> - 1022" by simp
    then have "power_int (2::real) (e + 1) \<le> power_int 2 (- 1022)"
      by (intro power_int_increasing) simp_all
    also have "\<dots> = 1 / 2 ^ 1022" by (simp add: power_int_minus_divide)
    finally show False using b(2) lo by linarith
  qed
  define u where "u = power_int (2::real) (e - 52)"
  have u0: "0 < u" by (simp add: u_def)
  have u: "u = power_int 2 e / 2 ^ 52"
    unfolding u_def by (subst power_int_diff) simp_all
  define n where "n = round_half_even (x / u)"
  define r where "r = of_int n * u"
  have "\<bar>r - x\<bar> = \<bar>of_int n - x / u\<bar> * u"
  proof -
    have "r - x = (of_int n - x / u) * u"
      using u0 by (simp add: r_def field_simps)
    then show ?thesis using u0 by (simp add: abs_mult)
  qed
  also have "\<dots> \<le> 1 / 2 * u"
    unfolding n_def using u0 round_half_even_error [of "x / u"]
    by (intro mult_right_mono) simp_all
  also have "\<dots> = power_int 2 e / 2 ^ 53" by (simp add: u)
  also have "\<dots> \<le> \<bar>x\<bar> / 2 ^ 53"
    using b(1) by (intro divide_right_mono) simp_all
  finally have err: "\<bar>r - x\<bar> \<le> \<bar>x\<bar> / 2 ^ 53" .
  have "\<bar>r\<bar> \<le> \<bar>x\<bar> + \<bar>r - x\<bar>" by simp
  also have "\<dots> \<le> \<bar>x\<bar> + \<bar>x\<bar> / 2 ^ 53" using err by simp
  also have "\<dots> \<le> 2 ^ 1023 + 2 ^ 1023 / 2 ^ 53"
    using hi by (intro add_mono divide_right_mono) simp_all
  also have "\<dots> < (2 ^ 1024 :: real)" by simp
  finally have fin: "\<not> 2 ^ 1024 \<le> \<bar>r\<bar>" by simp
  have "b64_round x = Finite r"
    using x0 e fin unfolding b64_round_def Let_def e_def [symmetric]
    by (simp add: max_def u_def [symmetric] n_def [symmetric] r_def [symmetric])
  with err show ?thesis by blast
qed

lemma b64_round_of_int:
  assumes "\<bar>n\<bar> < 2 ^ 53"
  shows "b64_round (of_int n) = Finite (of_int n)"
proof (cases "n = 0")
  case True
  then show ?thesis by (simp add: b64_round_def)
next
  case False
  define a where "a = \<bar>real_of_int n\<bar>"
  have a1: "1 \<le> a" using False by (simp add: a_def)
  have a53: "a < 2 ^ 53"
  proof -
    have "real_of_int \<bar>n\<bar> < real_of_int (2 ^ 53)" using assms by (simp only: of_int_less_iff)
    then show ?thesis by (simp add: a_def)
  qed
  define e where "e = binary_exponent a"
  have a0: "0 < a" using a1 by simp
  from binary_exponent_bounds [OF a0]
  have b: "power_int 2 e \<le> a" "a < power_int 2 (e + 1)"
    by (simp_all add: e_def)
  have e0: "0 \<le> e"
  proof (rule ccontr)
    assume "\<not> 0 \<le> e"
    then have "e + 1 \<le> 0" by simp
    then have "power_int (2::real) (e + 1) \<le> power_int 2 0"
      by (intro power_int_increasing) simp_all
    then show False using b(2) a1 by simp
  qed
  have e52: "e \<le> 52"
  proof (rule ccontr)
    assume "\<not> e \<le> 52"
    then have "53 \<le> e" by simp
    then have "power_int (2::real) 53 \<le> power_int 2 e"
      by (intro power_int_increasing) simp_all
    then show False using b(1) a53 by simp
  qed
  define j where "j = nat (52 - e)"
  have u: "power_int (2::real) (e - 52) = 1 / 2 ^ j"
    using power_int_2_neg [of "52 - e"] e52 by (simp add: j_def)
  have r: "round_half_even (real_of_int n * 2 ^ j) = n * 2 ^ j"
    using round_half_even_int [of "n * 2 ^ j"] by simp
  have fin: "\<not> 2 ^ 1024 \<le> \<bar>real_of_int n\<bar>"
  proof -
    have "a < 2 ^ 1024" using a53 by (rule less_trans) simp
    then show ?thesis by (simp add: a_def)
  qed
  show ?thesis
    using False e0 fin unfolding b64_round_def Let_def a_def [symmetric] e_def [symmetric]
    by (simp add: max_def u r a_def)
qed

lemma b64_round_pos:
  assumes "1 / 2 ^ 1022 \<le> x" "x \<le> 2 ^ 1023"
  shows "\<exists>r. b64_round x = Finite r \<and> (1 - 1 / 2 ^ 53) * x \<le> r \<and> r \<le> (1 + 1 / 2 ^ 53) * x"
proof -
  have "(0::real) < 1 / 2 ^ 1022" by simp
  with assms(1) have x0: "0 < x" by linarith
  then have ax: "\<bar>x\<bar> = x" by simp
  from b64_round_normal [of x] assms obtain r where
    r: "b64_round x = Finite r" "\<bar>r - x\<bar> \<le> x / 2 ^ 53"
    unfolding ax by blast
  from r(2) have "(1 - 1 / 2 ^ 53) * x \<le> r \<and> r \<le> (1 + 1 / 2 ^ 53) * x"
    unfolding abs_le_iff by (simp add: algebra_simps)
  with r(1) show ?thesis by blast
qed

lemma rounding_factors:
  "(1 + 1 / 2 ^ 53) / (1 - 1 / 2 ^ 53) ^ 4 \<le> (1 + 1 / 2 ^ 50 :: real)"
  "(1 - 1 / 2 ^ 50 :: real) \<le> (1 - 1 / 2 ^ 53) / (1 + 1 / 2 ^ 53) ^ 4"
  "(1 / 2 :: real) \<le> (1 - 1 / 2 ^ 53) ^ 4" "(1 + 1 / 2 ^ 53) ^ 4 \<le> (2::real)"
  "(1 / 2 :: real) \<le> (1 - 1 / 2 ^ 53)\<^sup>2" "(1 + 1 / 2 ^ 53)\<^sup>2 \<le> (2::real)"
  "(1 / 2 :: real) \<le> (1 - 1 / 2 ^ 53) ^ 3" "(1 + 1 / 2 ^ 53) ^ 3 \<le> (2::real)"
  by (simp_all add: power_divide)

lemma gam_binary64_close:
  fixes w :: real and xs ys zs :: int
  assumes m: "\<bar>min xs (min ys zs) - 1\<bar> < 2 ^ 53"
    and lo: "1 / 2 ^ 500 \<le> \<bar>of_int (min xs (min ys zs) - 1) * w\<bar>"
    and hi: "\<bar>of_int (min xs (min ys zs) - 1) * w\<bar> \<le> 2 ^ 500"
  shows "\<exists>y. gam_binary64 xs ys zs (Finite w) = Inr (Finite y) \<and>
             \<bar>y - 1 / (8 * (of_int (min xs (min ys zs) - 1) * w)\<^sup>2)\<bar> \<le>
               1 / (8 * (of_int (min xs (min ys zs) - 1) * w)\<^sup>2) / 2 ^ 50"
proof -
  define a where "a = real_of_int (min xs (min ys zs) - 1) * w"
  define c1 c2 :: real where "c1 = 1 - 1 / 2 ^ 53" and "c2 = 1 + 1 / 2 ^ 53"
  define A where "A = a\<^sup>2"
  define L U :: real where "L = 1 / 2 ^ 1000" and "U = 2 ^ 1000"
  have c: "0 < c1" "0 < c2" by (simp_all add: c1_def c2_def)
  note f = rounding_factors [folded c1_def c2_def]
  have L0: "0 < L" by (simp add: L_def)
  have AL: "L \<le> A"
  proof -
    have "(1 / 2 ^ 500)\<^sup>2 \<le> \<bar>a\<bar>\<^sup>2"
      using lo unfolding a_def [symmetric] by (intro power_mono) simp_all
    moreover have "(1 / 2 ^ 500 :: real)\<^sup>2 = 1 / 2 ^ 1000"
      by (simp add: power_divide power_mult [symmetric])
    ultimately show ?thesis by (simp add: A_def L_def)
  qed
  have AU: "A \<le> U"
  proof -
    have "\<bar>a\<bar>\<^sup>2 \<le> (2 ^ 500)\<^sup>2"
      using hi unfolding a_def [symmetric] by (intro power_mono) simp_all
    moreover have "((2::real) ^ 500)\<^sup>2 = 2 ^ 1000"
      by (simp add: power_mult [symmetric])
    ultimately show ?thesis by (simp add: A_def U_def)
  qed
  have A0: "0 < A" using L0 AL by linarith
  have n: "(1 / 2 ^ 1022 :: real) \<le> 1 / 2 ^ 500" "(2 ^ 500 :: real) \<le> 2 ^ 1023"
    "(1 / 2 ^ 1022 :: real) \<le> 1 / 2 * L" "2 * U \<le> 2 ^ 1023"
    "(1 / 2 ^ 1022 :: real) \<le> 8 * (1 / 2 * L)" "8 * (2 * U) \<le> 2 ^ 1023"
    "(1 / 2 ^ 1022 :: real) \<le> 1 / (8 * (2 * U))" "1 / (8 * (1 / 2 * L)) \<le> 2 ^ 1023"
    by (simp_all add: L_def U_def)
  from b64_round_normal [of a] lo hi n(1,2) obtain p where
    p: "b64_round a = Finite p" "\<bar>p - a\<bar> \<le> \<bar>a\<bar> / 2 ^ 53"
    unfolding a_def [symmetric] by (meson order_trans)
  have "\<bar>\<bar>p\<bar> - \<bar>a\<bar>\<bar> \<le> \<bar>p - a\<bar>" by (rule abs_triangle_ineq3)
  with p(2) have "\<bar>a\<bar> - \<bar>p\<bar> \<le> \<bar>a\<bar> / 2 ^ 53" "\<bar>p\<bar> - \<bar>a\<bar> \<le> \<bar>a\<bar> / 2 ^ 53"
    by linarith+
  then have pa: "c1 * \<bar>a\<bar> \<le> \<bar>p\<bar>" "\<bar>p\<bar> \<le> c2 * \<bar>a\<bar>"
    unfolding c1_def c2_def by (simp_all add: algebra_simps)
  have pp: "p * p = \<bar>p\<bar>\<^sup>2" by (simp add: power2_eq_square)
  have P: "c1\<^sup>2 * A \<le> p * p" "p * p \<le> c2\<^sup>2 * A"
  proof -
    have "(c1 * \<bar>a\<bar>)\<^sup>2 \<le> \<bar>p\<bar>\<^sup>2"
      using pa(1) c(1) by (intro power_mono) simp_all
    then show "c1\<^sup>2 * A \<le> p * p"
      unfolding pp by (simp add: power_mult_distrib A_def)
    have "\<bar>p\<bar>\<^sup>2 \<le> (c2 * \<bar>a\<bar>)\<^sup>2"
      using pa(2) by (intro power_mono) simp_all
    then show "p * p \<le> c2\<^sup>2 * A"
      unfolding pp by (simp add: power_mult_distrib A_def)
  qed
  have "1 / 2 * L \<le> c1\<^sup>2 * A"
    using f(5) AL L0 c by (intro mult_mono) simp_all
  with P(1) n(3) have r1: "1 / 2 ^ 1022 \<le> p * p" by linarith
  have "c2\<^sup>2 * A \<le> 2 * U"
    using f(6) AU A0 c by (intro mult_mono) simp_all
  with P(2) n(4) have r2: "p * p \<le> 2 ^ 1023" by linarith
  from b64_round_pos [OF r1 r2] obtain s where
    s: "b64_round (p * p) = Finite s" "c1 * (p * p) \<le> s" "s \<le> c2 * (p * p)"
    unfolding c1_def c2_def by blast
  have S: "c1 ^ 3 * A \<le> s" "s \<le> c2 ^ 3 * A"
  proof -
    have "c1 ^ 3 * A = c1 * (c1\<^sup>2 * A)"
      by (simp add: power3_eq_cube power2_eq_square)
    also have "\<dots> \<le> c1 * (p * p)"
      using P(1) c(1) by (intro mult_left_mono) simp_all
    also note s(2)
    finally show "c1 ^ 3 * A \<le> s" .
    note s(3)
    also have "c2 * (p * p) \<le> c2 * (c2\<^sup>2 * A)"
      using P(2) c(2) by (intro mult_left_mono) simp_all
    also have "\<dots> = c2 ^ 3 * A"
      by (simp add: power3_eq_cube power2_eq_square)
    finally show "s \<le> c2 ^ 3 * A" .
  qed
  have "1 / 2 * L \<le> c1 ^ 3 * A"
    using f(7) AL L0 c by (intro mult_mono) simp_all
  with S(1) n(5) have r3: "1 / 2 ^ 1022 \<le> 8 * s" by linarith
  have "c2 ^ 3 * A \<le> 2 * U"
    using f(8) AU A0 c by (intro mult_mono) simp_all
  with S(2) n(6) have r4: "8 * s \<le> 2 ^ 1023" by linarith
  from b64_round_pos [OF r3 r4] obtain t where
    t: "b64_round (8 * s) = Finite t" "c1 * (8 * s) \<le> t" "t \<le> c2 * (8 * s)"
    unfolding c1_def c2_def by blast
  have T: "8 * (c1 ^ 4 * A) \<le> t" "t \<le> 8 * (c2 ^ 4 * A)"
  proof -
    have "8 * (c1 ^ 4 * A) = c1 * (8 * (c1 ^ 3 * A))"
      by (simp add: power4_eq_xxxx power3_eq_cube)
    also have "\<dots> \<le> c1 * (8 * s)"
      using S(1) c(1) by (intro mult_left_mono) simp_all
    also note t(2)
    finally show "8 * (c1 ^ 4 * A) \<le> t" .
    note t(3)
    also have "c2 * (8 * s) \<le> c2 * (8 * (c2 ^ 3 * A))"
      using S(2) c(2) by (intro mult_left_mono) simp_all
    also have "\<dots> = 8 * (c2 ^ 4 * A)"
      by (simp add: power4_eq_xxxx power3_eq_cube)
    finally show "t \<le> 8 * (c2 ^ 4 * A)" .
  qed
  have lt: "8 * (1 / 2 * L) \<le> t"
  proof -
    have "1 / 2 * L \<le> c1 ^ 4 * A"
      using f(3) AL L0 c by (intro mult_mono) simp_all
    with T(1) show ?thesis by linarith
  qed
  have ut: "t \<le> 8 * (2 * U)"
  proof -
    have "c2 ^ 4 * A \<le> 2 * U"
      using f(4) AU A0 c by (intro mult_mono) simp_all
    with T(2) show ?thesis by linarith
  qed
  have t0: "0 < t" using lt L0 by linarith
  have "1 / (8 * (2 * U)) \<le> 1 / t"
    using ut t0 by (intro divide_left_mono) simp_all
  with n(7) have r5: "1 / 2 ^ 1022 \<le> 1 / t" by linarith
  have "1 / t \<le> 1 / (8 * (1 / 2 * L))"
    using lt t0 L0 by (intro divide_left_mono) simp_all
  with n(8) have r6: "1 / t \<le> 2 ^ 1023" by linarith
  from b64_round_pos [OF r5 r6] obtain y where
    y: "b64_round (1 / t) = Finite y" "c1 * (1 / t) \<le> y" "y \<le> c2 * (1 / t)"
    unfolding c1_def c2_def by blast
  define g where "g = 1 / (8 * A)"
  have g0: "0 < g" using A0 by (simp add: g_def)
  have c14: "0 < c1 ^ 4" and c24: "0 < c2 ^ 4" using c by simp_all
  have up: "y \<le> (1 + 1 / 2 ^ 50) * g"
  proof -
    have "1 / t \<le> 1 / (8 * (c1 ^ 4 * A))"
      using T(1) t0 c14 A0 by (intro divide_left_mono) simp_all
    then have "c2 * (1 / t) \<le> c2 * (1 / (8 * (c1 ^ 4 * A)))"
      using c(2) by (intro mult_left_mono) simp_all
    also have "\<dots> = c2 / c1 ^ 4 * g" by (simp add: g_def)
    also have "\<dots> \<le> (1 + 1 / 2 ^ 50) * g"
      using f(1) g0 by (intro mult_right_mono) simp_all
    finally show ?thesis using y(3) by linarith
  qed
  have dn: "(1 - 1 / 2 ^ 50) * g \<le> y"
  proof -
    have "(1 - 1 / 2 ^ 50) * g \<le> c1 / c2 ^ 4 * g"
      using f(2) g0 by (intro mult_right_mono) simp_all
    also have "\<dots> = c1 * (1 / (8 * (c2 ^ 4 * A)))" by (simp add: g_def)
    also have "\<dots> \<le> c1 * (1 / t)"
    proof -
      have "1 / (8 * (c2 ^ 4 * A)) \<le> 1 / t"
        using T(2) t0 by (intro divide_left_mono) simp_all
      then show ?thesis using c(1) by (intro mult_left_mono) simp_all
    qed
    finally show ?thesis using y(2) by linarith
  qed
  have err: "\<bar>y - g\<bar> \<le> g / 2 ^ 50"
    using up dn unfolding abs_le_iff by (simp add: algebra_simps)
  have i: "float_of_int (min xs (min ys zs) - 1) = Inr (Finite (of_int (min xs (min ys zs) - 1)))"
    unfolding float_of_int_def b64_round_of_int [OF m] by simp
  have "b64_round (of_int 8) = Finite (of_int 8)" "b64_round (of_int 1) = Finite (of_int 1)"
    by (rule b64_round_of_int, simp)+
  then have k: "float_of_int 8 = Inr (Finite 8)" "float_of_int 1 = Inr (Finite 1)"
    by (simp_all add: float_of_int_def)
  have p': "b64_round ((real_of_int (min xs (min ys zs)) - 1) * w) = Finite p"
    using p(1) by (simp add: a_def)
  have "gam_binary64 xs ys zs (Finite w) = Inr (Finite y)"
    unfolding gam_binary64_def i k
    using t0 by (simp add: float_mul_def float_pow2_def float_truediv_def p' s(1) t(1) y(1))
  with err show ?thesis
    unfolding g_def A_def a_def by blast
qed

lemma round_half_even_small:
  assumes "\<bar>y\<bar> < 1 / 2"
  shows "round_half_even y = 0"
proof (cases "0 \<le> y")
  case True
  with assms have "\<lfloor>y\<rfloor> = 0" by (intro floor_unique) simp_all
  with assms True show ?thesis by (simp add: round_half_even_def)
next
  case False
  with assms have "\<lfloor>y\<rfloor> = - 1" by (intro floor_unique) simp_all
  with assms False show ?thesis by (simp add: round_half_even_def)
qed

lemma round_half_even_ge_floor: "\<lfloor>y\<rfloor> \<le> round_half_even y"
  by (simp add: round_half_even_def Let_def)

lemma b64_round_underflow:
  assumes "\<bar>x\<bar> < 1 / 2 ^ 1075"
  shows "b64_round x = Finite 0"
proof (cases "x = 0")
  case True
  then show ?thesis by (simp add: b64_round_def)
next
  case False
  then have a0: "0 < \<bar>x\<bar>" by simp
  define e where "e = binary_exponent \<bar>x\<bar>"
  from binary_exponent_bounds [OF a0] have b: "power_int 2 e \<le> \<bar>x\<bar>"
    by (simp add: e_def)
  have e: "e \<le> - 1022"
  proof (rule ccontr)
    assume "\<not> e \<le> - 1022"
    then have "- 1075 \<le> e" by simp
    then have "power_int (2::real) (- 1075) \<le> power_int 2 e"
      by (intro power_int_increasing) simp_all
    moreover have "power_int (2::real) (- 1075) = 1 / 2 ^ 1075"
      by (simp add: power_int_minus_divide)
    ultimately show False using b assms by linarith
  qed
  have u: "power_int (2::real) (- 1022 - 52) = 1 / 2 ^ 1074"
    by (simp add: power_int_minus_divide)
  have "\<bar>x / (1 / 2 ^ 1074)\<bar> = \<bar>x\<bar> * 2 ^ 1074" by (simp add: abs_mult)
  also have "\<dots> < 1 / 2 ^ 1075 * 2 ^ 1074"
    using assms by (intro mult_strict_right_mono) simp_all
  also have "\<dots> = 1 / 2" by simp
  finally have "round_half_even (x / (1 / 2 ^ 1074)) = 0"
    by (rule round_half_even_small)
  then show ?thesis
    using False e unfolding b64_round_def Let_def e_def [symmetric]
    by (simp add: max_def u)
qed

lemma b64_round_overflow:
  assumes "2 ^ 1024 \<le> x"
  shows "b64_round x = PosInf"
proof -
  have "(0::real) < 2 ^ 1024" by simp
  with assms have x0: "0 < x" by linarith
  then have ax: "\<bar>x\<bar> = x" by simp
  define e where "e = binary_exponent x"
  from binary_exponent_bounds [OF x0]
  have b: "power_int 2 e \<le> x" "x < power_int 2 (e + 1)"
    by (simp_all add: e_def)
  have e: "1024 \<le> e"
  proof (rule ccontr)
    assume "\<not> 1024 \<le> e"
    then have "e + 1 \<le> 1024" by simp
    then have "power_int (2::real) (e + 1) \<le> power_int 2 1024"
      by (intro power_int_increasing) simp_all
    then show False using b(2) assms by simp
  qed
  define u where "u = power_int (2::real) (e - 52)"
  have u0: "0 < u" by (simp add: u_def)
  have pu: "power_int (2::real) e = 2 ^ 52 * u"
    unfolding u_def by (subst power_int_diff) simp_all
  define n where "n = round_half_even (x / u)"
  have "2 ^ 52 \<le> x / u"
    using b(1) u0 unfolding pu by (simp add: pos_le_divide_eq)
  then have "(2 ^ 52 :: int) \<le> \<lfloor>x / u\<rfloor>"
    by (simp add: le_floor_iff)
  also have "\<dots> \<le> n" unfolding n_def by (rule round_half_even_ge_floor)
  finally have "real_of_int (2 ^ 52) \<le> real_of_int n" by (simp only: of_int_le_iff)
  then have nu: "2 ^ 52 * u \<le> real_of_int n * u"
    using u0 by (intro mult_right_mono) simp_all
  have "(2::real) ^ 1024 = power_int 2 1024" by simp
  also have "\<dots> \<le> power_int 2 e"
    using e by (intro power_int_increasing) simp_all
  also note pu
  also note nu
  finally have "2 ^ 1024 \<le> real_of_int n * u" .
  then have big: "2 ^ 1024 \<le> \<bar>real_of_int n * u\<bar>"
    using abs_ge_self [of "real_of_int n * u"] by linarith
  show ?thesis
    using x0 e big unfolding b64_round_def Let_def ax e_def [symmetric]
    by (simp add: max_def u_def [symmetric] n_def [symmetric])
qed

lemma float_of_int_small:
  assumes "\<bar>n\<bar> < 2 ^ 53"
  shows "float_of_int n = Inr (Finite (of_int n))"
  unfolding float_of_int_def b64_round_of_int [OF assms] by simp

lemma gam_binary64_steps:
  assumes m: "\<bar>min xs (min ys zs) - 1\<bar> < 2 ^ 53"
    and p: "b64_round (of_int (min xs (min ys zs) - 1) * w) = Finite p"
  shows "gam_binary64 xs ys zs (Finite w) =
         (case b64_round (p * p) of
            Finite s \<Rightarrow> float_truediv (Finite 1) (float_mul (Finite 8) (Finite s))
          | _ \<Rightarrow> Inl OverflowError)"
proof -
  have k: "float_of_int 8 = Inr (Finite 8)" "float_of_int 1 = Inr (Finite 1)"
    using float_of_int_small [of 8] float_of_int_small [of 1] by simp_all
  have p': "b64_round ((real_of_int (min xs (min ys zs)) - 1) * w) = Finite p"
    using p by simp
  show ?thesis
    unfolding gam_binary64_def float_of_int_small [OF m] k
    by (simp add: float_mul_def float_pow2_def p' split: float64.splits)
qed

lemma gam_binary64_underflow:
  assumes m: "\<bar>min xs (min ys zs) - 1\<bar> < 2 ^ 53"
    and a: "of_int (min xs (min ys zs) - 1) * w = 0 \<or>
            1 / 2 ^ 1022 \<le> \<bar>of_int (min xs (min ys zs) - 1) * w\<bar> \<and>
            \<bar>of_int (min xs (min ys zs) - 1) * w\<bar> \<le> 1 / 2 ^ 540"
  shows "gam_binary64 xs ys zs (Finite w) = Inl ZeroDivisionError"
proof -
  define a where "a = real_of_int (min xs (min ys zs) - 1) * w"
  have "\<exists>p. b64_round a = Finite p \<and> \<bar>p\<bar> \<le> 2 / 2 ^ 540"
  proof (cases "a = 0")
    case True
    then show ?thesis by (simp add: b64_round_def)
  next
    case False
    with a have lo: "1 / 2 ^ 1022 \<le> \<bar>a\<bar>" and hi: "\<bar>a\<bar> \<le> 1 / 2 ^ 540"
      by (simp_all add: a_def)
    have "(1 / 2 ^ 540 :: real) \<le> 2 ^ 1023" by simp
    with hi have "\<bar>a\<bar> \<le> 2 ^ 1023" by linarith
    from b64_round_normal [OF lo this] obtain p where
      p: "b64_round a = Finite p" "\<bar>p - a\<bar> \<le> \<bar>a\<bar> / 2 ^ 53"
      by blast
    have "\<bar>p\<bar> \<le> \<bar>a\<bar> + \<bar>p - a\<bar>" by simp
    with p(2) hi have "\<bar>p\<bar> \<le> 2 / 2 ^ 540" by simp
    with p(1) show ?thesis by blast
  qed
  then obtain p where p: "b64_round a = Finite p" "\<bar>p\<bar> \<le> 2 / 2 ^ 540"
    by blast
  have "\<bar>p\<bar>\<^sup>2 \<le> (2 / 2 ^ 540)\<^sup>2"
    using p(2) by (intro power_mono) simp_all
  also have "\<dots> < (1 / 2 ^ 1075 :: real)"
    by (simp add: power_divide power_mult [symmetric])
  finally have "\<bar>p * p\<bar> < 1 / 2 ^ 1075"
    by (simp add: power2_eq_square abs_mult)
  then have s: "b64_round (p * p) = Finite 0"
    by (rule b64_round_underflow)
  have b0: "b64_round 0 = Finite 0" by (simp add: b64_round_def)
  show ?thesis
    unfolding gam_binary64_steps [OF m p(1) [unfolded a_def]] s
    by (simp add: float_mul_def float_truediv_def b0)
qed

lemma gam_binary64_overflow:
  assumes m: "\<bar>min xs (min ys zs) - 1\<bar> < 2 ^ 53"
    and lo: "2 ^ 513 \<le> \<bar>of_int (min xs (min ys zs) - 1) * w\<bar>"
    and hi: "\<bar>of_int (min xs (min ys zs) - 1) * w\<bar> \<le> 2 ^ 1023"
  shows "gam_binary64 xs ys zs (Finite w) = Inl OverflowError"
proof -
  define a where "a = real_of_int (min xs (min ys zs) - 1) * w"
  have "(1 / 2 ^ 1022 :: real) \<le> 2 ^ 513" by simp
  with lo have "1 / 2 ^ 1022 \<le> \<bar>a\<bar>" unfolding a_def by linarith
  from b64_round_normal [OF this hi [folded a_def]] obtain p where
    p: "b64_round a = Finite p" "\<bar>p - a\<bar> \<le> \<bar>a\<bar> / 2 ^ 53"
    by blast
  have "\<bar>a\<bar> \<le> \<bar>p\<bar> + \<bar>p - a\<bar>" by simp
  moreover have "\<bar>a\<bar> / 2 ^ 53 \<le> \<bar>a\<bar> / 2"
    by (intro divide_left_mono) simp_all
  ultimately have "\<bar>a\<bar> / 2 \<le> \<bar>p\<bar>"
    using p(2) by linarith
  with lo have "2 ^ 512 \<le> \<bar>p\<bar>" unfolding a_def by simp
  then have "(2 ^ 512)\<^sup>2 \<le> \<bar>p\<bar>\<^sup>2"
    by (intro power_mono) simp_all
  moreover have "((2::real) ^ 512)\<^sup>2 = 2 ^ 1024"
    by (simp add: power_mult [symmetric])
  ultimately have "2 ^ 1024 \<le> p * p"
    by (simp add: power2_eq_square)
  then have s: "b64_round (p * p) = PosInf"
    by (rule b64_round_overflow)
  show ?thesis
    unfolding gam_binary64_steps [OF m p(1) [unfolded a_def]] s by simp
qed

lemmas b64_eval = gam_binary64_def float_of_int_def float_mul_def float_pow2_def float_truediv_def
  b64_round_def binary_exponent_def round_half_even_def compute_bitlen Let_def

section \<open>The range of binary64 in the kernel construction\<close>

lemma exp_600_bound: "exp (600::real) \<le> 2 ^ 1000"
proof -
  have "exp (3 / 5 :: real) \<le> 1 + 3 / 5 + (3 / 5)\<^sup>2"
    by (rule exp_bound) simp_all
  also have "\<dots> \<le> 2" by (simp add: power2_eq_square)
  finally have "exp (3 / 5 :: real) ^ 1000 \<le> 2 ^ 1000"
    by (intro power_mono) simp_all
  moreover have "exp (of_nat 1000 * (3 / 5 :: real)) = exp (3 / 5) ^ 1000"
    by (rule exp_of_nat_mult)
  ultimately show ?thesis by simp
qed

lemma weight_normal:
  fixes q :: real
  assumes "0 \<le> q" "q \<le> 600"
  shows "binary64_normal (exp (- q))"
proof -
  have "exp q \<le> exp 600" using assms(2) by simp
  also have "\<dots> \<le> 2 ^ 1000" by (rule exp_600_bound)
  also have "\<dots> \<le> (2 ^ 1022 :: real)" by (intro power_increasing) simp_all
  finally have "exp q \<le> 2 ^ 1022" .
  then have "1 / 2 ^ 1022 \<le> 1 / exp q"
    by (intro divide_left_mono) simp_all
  then have lo: "1 / 2 ^ 1022 \<le> exp (- q)"
    by (simp add: exp_minus inverse_eq_divide)
  have "exp (- q) \<le> 1" using assms(1) by simp
  also have "\<dots> \<le> ((2 ^ 53 - 1) * 2 ^ 971 :: real)" by simp
  finally have hi: "exp (- q) \<le> (2 ^ 53 - 1) * 2 ^ 971" .
  from lo hi show ?thesis by (simp add: binary64_normal_def)
qed

lemma divisor_normal:
  fixes d :: real
  assumes "1 / 40 \<le> \<bar>d\<bar>" "\<bar>d\<bar> \<le> 2 ^ 500"
  shows "binary64_normal (d\<^sup>2) \<and> binary64_normal (2 * d\<^sup>2)"
proof -
  have "(1 / 40)\<^sup>2 \<le> \<bar>d\<bar>\<^sup>2" using assms(1) by (intro power_mono) simp_all
  then have lo: "1 / 1600 \<le> d\<^sup>2" by (simp add: power2_eq_square)
  have "\<bar>d\<bar>\<^sup>2 \<le> (2 ^ 500)\<^sup>2" using assms(2) by (intro power_mono) simp_all
  then have hi: "d\<^sup>2 \<le> 2 ^ 1000" by (simp add: power_mult [symmetric])
  have a: "(1 / 2 ^ 1022 :: real) \<le> 1 / 1600" by simp
  have b: "(2 * 2 ^ 1000 :: real) \<le> (2 ^ 53 - 1) * 2 ^ 971" by simp
  from lo hi a b show ?thesis
    unfolding binary64_normal_def by (simp only: abs_mult abs_power2 abs_numeral) linarith
qed

lemma axis_term_bound:
  fixes X :: nat and sigma :: real
  assumes X: "2 \<le> X" and i: "i < X" and s: "1 / 40 \<le> \<bar>sigma\<bar>"
  shows "0 \<le> (real i - (real X - 1) / 2)\<^sup>2 / (2 * (sigma * (real X - 1))\<^sup>2) \<and>
         (real i - (real X - 1) / 2)\<^sup>2 / (2 * (sigma * (real X - 1))\<^sup>2) \<le> 200"
proof -
  define h where "h = real X - 1"
  have h: "1 \<le> h" using X by (simp add: h_def)
  from i have "Suc i \<le> X" by simp
  then have "real (Suc i) \<le> real X" by (rule of_nat_mono)
  then have "real i \<le> h" by (simp add: h_def)
  then have "\<bar>real i - h / 2\<bar> \<le> h / 2"
    unfolding abs_le_iff by simp
  then have "\<bar>real i - h / 2\<bar>\<^sup>2 \<le> (h / 2)\<^sup>2"
    by (intro power_mono) simp_all
  then have n: "(real i - h / 2)\<^sup>2 \<le> h\<^sup>2 / 4"
    by (simp add: power2_eq_square)
  have "(1 / 40)\<^sup>2 \<le> \<bar>sigma\<bar>\<^sup>2" using s by (intro power_mono) simp_all
  then have s2: "1 / 1600 \<le> sigma\<^sup>2" by (simp add: power2_eq_square)
  have h2: "0 < h\<^sup>2" using h by simp
  have "h\<^sup>2 / 4 \<le> 200 * (2 * (sigma\<^sup>2 * h\<^sup>2))"
  proof -
    have "h\<^sup>2 / 4 = 400 * (1 / 1600) * h\<^sup>2" by simp
    also have "\<dots> \<le> 400 * sigma\<^sup>2 * h\<^sup>2"
      using s2 h2 by (intro mult_right_mono mult_left_mono) simp_all
    finally show ?thesis by simp
  qed
  with n have "(real i - h / 2)\<^sup>2 \<le> 200 * (2 * (sigma * h)\<^sup>2)"
    by (simp add: power_mult_distrib)
  moreover have "0 < 2 * (sigma * h)\<^sup>2"
  proof -
    have "0 < sigma\<^sup>2" using s2 by linarith
    with h2 have "0 < sigma\<^sup>2 * h\<^sup>2" by (rule mult_pos_pos [rotated])
    then show ?thesis by (simp add: power_mult_distrib)
  qed
  ultimately have "(real i - h / 2)\<^sup>2 / (2 * (sigma * h)\<^sup>2) \<le> 200"
    by (simp add: pos_divide_le_eq)
  then show ?thesis by (simp add: h_def)
qed

lemma weights_in_range_sufficient:
  assumes e: "2 \<le> xs" "2 \<le> ys" "2 \<le> zs"
    and lo: "1 / 40 \<le> \<bar>sigma\<bar>"
    and hi: "\<bar>sigma\<bar> * of_int (xs - 1) \<le> 2 ^ 500" "\<bar>sigma\<bar> * of_int (ys - 1) \<le> 2 ^ 500"
      "\<bar>sigma\<bar> * of_int (zs - 1) \<le> 2 ^ 500"
  shows "weights_in_range xs ys zs sigma"
proof -
  have d: "binary64_normal ((sigma * of_int (n - 1))\<^sup>2) \<and> binary64_normal (2 * (sigma * of_int (n - 1))\<^sup>2)"
    if n: "2 \<le> n" and b: "\<bar>sigma\<bar> * of_int (n - 1) \<le> 2 ^ 500" for n :: int
  proof (rule divisor_normal)
    have "1 \<le> (of_int (n - 1) :: real)" using n by simp
    then have "\<bar>sigma\<bar> * 1 \<le> \<bar>sigma\<bar> * of_int (n - 1)"
      by (intro mult_left_mono) simp_all
    with lo show "1 / 40 \<le> \<bar>sigma * of_int (n - 1)\<bar>"
      using n by (simp add: abs_mult)
    show "\<bar>sigma * of_int (n - 1)\<bar> \<le> 2 ^ 500"
      using b n by (simp add: abs_mult)
  qed
  define X Y Z where "X = nat xs" and "Y = nat ys" and "Z = nat zs"
  have g: "2 \<le> X" "2 \<le> Y" "2 \<le> Z" using e by (simp_all add: X_def Y_def Z_def)
  have w: "binary64_normal w" if "w \<in> set (grid_w X Y Z sigma)" for w
  proof -
    from that obtain p where p: "p < X * Y * Z" and wp: "w = grid_w X Y Z sigma ! p"
      by (auto simp: in_set_conv_nth)
    have Y0: "0 < Y" and Z0: "0 < Z" using g by simp_all
    have ix: "p div (Y * Z) < X"
      using p by (intro less_mult_imp_div_less) (simp add: mult.assoc)
    have iy: "p div Z mod Y < Y" using Y0 by simp
    have iz: "p mod Z < Z" using Z0 by simp
    note bx = axis_term_bound [OF g(1) ix lo]
    note by' = axis_term_bound [OF g(2) iy lo]
    note bz = axis_term_bound [OF g(3) iz lo]
    have "w = exp (- ((real (p div (Y * Z)) - (real X - 1) / 2)\<^sup>2 / (2 * (sigma * (real X - 1))\<^sup>2) +
                     (real (p div Z mod Y) - (real Y - 1) / 2)\<^sup>2 / (2 * (sigma * (real Y - 1))\<^sup>2) +
                     (real (p mod Z) - (real Z - 1) / 2)\<^sup>2 / (2 * (sigma * (real Z - 1))\<^sup>2)))"
      unfolding wp using p by (simp add: grid_w_def grid_x_def grid_y_def grid_z_def)
    moreover have "binary64_normal (exp (- ((real (p div (Y * Z)) - (real X - 1) / 2)\<^sup>2 / (2 * (sigma * (real X - 1))\<^sup>2) +
                     (real (p div Z mod Y) - (real Y - 1) / 2)\<^sup>2 / (2 * (sigma * (real Y - 1))\<^sup>2) +
                     (real (p mod Z) - (real Z - 1) / 2)\<^sup>2 / (2 * (sigma * (real Z - 1))\<^sup>2))))"
      using bx by' bz by (intro weight_normal) linarith+
    ultimately show ?thesis by simp
  qed
  show ?thesis
    unfolding weights_in_range_def
    using d [OF e(1) hi(1)] d [OF e(2) hi(2)] d [OF e(3) hi(3)] w
    by (simp add: X_def Y_def Z_def)
qed

lemma weights_in_range_nonzero:
  assumes "weights_in_range xs ys zs sigma"
  shows "sigma \<noteq> 0"
proof
  assume "sigma = 0"
  with assms have "binary64_normal 0"
    by (simp add: weights_in_range_def)
  then show False by (simp add: binary64_normal_def)
qed

lemma corner_weight:
  assumes "2 \<le> X" "2 \<le> Y" "2 \<le> Z" "sigma \<noteq> 0"
  shows "grid_w X Y Z sigma ! 0 = exp (- (3 / (8 * sigma\<^sup>2)))"
proof -
  have p: "0 < X * Y * Z" using assms(1-3) by simp
  have h: "(0 - h / 2)\<^sup>2 / (2 * (sigma * h)\<^sup>2) = 1 / (8 * sigma\<^sup>2)" if "h \<noteq> 0" for h :: real
    using that assms(4) by (simp add: power2_eq_square field_simps)
  have t: "(0 - (real n - 1) / 2)\<^sup>2 / (2 * (sigma * (real n - 1))\<^sup>2) = 1 / (8 * sigma\<^sup>2)"
    if "2 \<le> n" for n :: nat
    using that by (intro h) simp
  have "grid_w X Y Z sigma ! 0 =
        exp (- ((0 - (real X - 1) / 2)\<^sup>2 / (2 * (sigma * (real X - 1))\<^sup>2) +
                (0 - (real Y - 1) / 2)\<^sup>2 / (2 * (sigma * (real Y - 1))\<^sup>2) +
                (0 - (real Z - 1) / 2)\<^sup>2 / (2 * (sigma * (real Z - 1))\<^sup>2)))"
    using p by (simp add: grid_w_def grid_x_def grid_y_def grid_z_def)
  also have "\<dots> = exp (- (3 / (8 * sigma\<^sup>2)))"
    unfolding t [OF assms(1)] t [OF assms(2)] t [OF assms(3)] by simp
  finally show ?thesis .
qed

lemma weights_in_range_necessary:
  assumes r: "weights_in_range xs ys zs sigma" and e: "2 \<le> xs" "2 \<le> ys" "2 \<le> zs"
  shows "3 / (8 * sigma\<^sup>2) \<le> 1022"
proof -
  define q where "q = 3 / (8 * sigma\<^sup>2)"
  have nz: "sigma \<noteq> 0" using r by (rule weights_in_range_nonzero)
  have g: "2 \<le> nat xs" "2 \<le> nat ys" "2 \<le> nat zs" using e by simp_all
  have "0 < nat xs * nat ys * nat zs" using e by simp
  then have "grid_w (nat xs) (nat ys) (nat zs) sigma ! 0 \<in> set (grid_w (nat xs) (nat ys) (nat zs) sigma)"
    by (intro nth_mem) simp
  with r have "binary64_normal (grid_w (nat xs) (nat ys) (nat zs) sigma ! 0)"
    by (simp add: weights_in_range_def)
  then have "1 / 2 ^ 1022 \<le> exp (- q)"
    unfolding corner_weight [OF g nz] q_def by (simp add: binary64_normal_def)
  then have "exp q \<le> 2 ^ 1022"
    by (simp add: exp_minus inverse_eq_divide field_simps)
  also have "(2::real) ^ 1022 \<le> exp 1 ^ 1022"
    using exp_ge_add_one_self [of 1] by (intro power_mono) simp_all
  also have "exp (1::real) ^ 1022 = exp (of_nat 1022 * 1)"
    by (rule exp_of_nat_mult [symmetric])
  finally have "exp q \<le> exp (of_nat 1022 * 1)" .
  then have "q \<le> of_nat 1022 * 1" by (simp only: exp_le_cancel_iff)
  then show ?thesis by (simp add: q_def)
qed

lemma weights_out_of_range: "\<not> weights_in_range 3 3 3 (1 / 100)"
proof
  assume "weights_in_range 3 3 3 (1 / 100)"
  then have "3 / (8 * (1 / 100 :: real)\<^sup>2) \<le> 1022"
    by (rule weights_in_range_necessary) simp_all
  then show False by (simp add: power2_eq_square)
qed

section \<open>Claims about the centre-trace convolution\<close>

text \<open>
  Claim C2. When the block is at least as large as the kernel on every axis, the call
  returns, in either copy of the function, and its value at each \<open>z\<close> with \<open>Zf div 2 \<le> z < Z - Zf div 2\<close> is the sum over
  the kernel's indices of the kernel read backwards times the block around its central
  trace. (Under the hypotheses no subtraction on \<^typ>\<open>nat\<close> below truncates.) For a kernel of
  z-extent 3 and a block of z-extent 7 the loop writes the positions 1, 2, 3, 4, 5 and no other.
\<close>

theorem sconvolve_flipped_correlation:
  assumes "shape3 arr = (X, Y, Z)" "shape3 filt = (Xf, Yf, Zf)"
    and "Xf \<le> X" "Yf \<le> Y" "Zf \<le> Z"
  shows "\<exists>out. sconvolve arr filt = Inr out \<and> xl_sconvolve arr filt = Inr out \<and>
           (\<forall>z. Zf div 2 \<le> z \<and> z < Z - Zf div 2 \<longrightarrow>
              out ! z = (\<Sum>ii<Xf. \<Sum>jj<Yf. \<Sum>kk<Zf.
                 data3 filt (Xf - 1 - ii) (Yf - 1 - jj) (Zf - 1 - kk) *
                 data3 arr (X div 2 - Xf div 2 + ii) (Y div 2 - Yf div 2 + jj) (z - Zf div 2 + kk))) \<and>
           (Zf = 3 \<and> Z = 7 \<longrightarrow> sconvolve_range arr filt = [1, 2, 3, 4, 5])"
proof -
  obtain out where out: "sconvolve arr filt = Inr out" "length out = Z"
    "\<forall>z<Z. out ! z = (if Zf div 2 \<le> z \<and> z < Z - Zf div 2 then window_sum arr filt z else 0)"
    using sconvolve_total [OF assms(1-4)] by blast
  have "out ! z = window_sum arr filt z" if "Zf div 2 \<le> z \<and> z < Z - Zf div 2" for z
  proof -
    have "z < Z" using that by linarith
    with out(3) that show ?thesis by simp
  qed
  then have a: "\<forall>z. Zf div 2 \<le> z \<and> z < Z - Zf div 2 \<longrightarrow>
              out ! z = (\<Sum>ii<Xf. \<Sum>jj<Yf. \<Sum>kk<Zf.
                 data3 filt (Xf - 1 - ii) (Yf - 1 - jj) (Zf - 1 - kk) *
                 data3 arr (X div 2 - Xf div 2 + ii) (Y div 2 - Yf div 2 + jj) (z - Zf div 2 + kk))"
    by (simp add: window_sum_def assms(1,2))
  have b: "Zf = 3 \<and> Z = 7 \<longrightarrow> sconvolve_range arr filt = [1, 2, 3, 4, 5]"
  proof
    assume "Zf = 3 \<and> Z = 7"
    then have "sconvolve_range arr filt = py_range 1 6"
      by (simp add: sconvolve_range_def assms(1,2))
    also have "py_range 1 6 = [1, 2, 3, 4, 5]"
      by (simp add: py_range_def upto.simps)
    finally show "sconvolve_range arr filt = [1, 2, 3, 4, 5]" .
  qed
  have "xl_sconvolve arr filt = Inr out"
    using out(1) by (simp add: xl_sconvolve_eq)
  with out(1) a b show ?thesis by blast
qed

theorem sconvolve_flipped_correlation_witness:
  "\<exists>out. sconvolve \<lparr>shape3 = (3, 3, 4), data3 = (\<lambda>i j k. real (i + 2 * j + 3 * k))\<rparr>
                    \<lparr>shape3 = (3, 3, 3), data3 = (\<lambda>i j k. real (i * j + k))\<rparr> = Inr out \<and>
         out ! 1 = 216 \<and> out ! 2 = 378"
proof -
  let ?arr = "\<lparr>shape3 = (3, 3, 4), data3 = (\<lambda>i j k. real (i + 2 * j + 3 * k))\<rparr>"
  let ?filt = "\<lparr>shape3 = (3, 3, 3), data3 = (\<lambda>i j k. real (i * j + k))\<rparr>"
  have s: "shape3 ?arr = (3, 3, 4)" "shape3 ?filt = (3, 3, 3)" by simp_all
  have l: "(3::nat) \<le> 3" "(3::nat) \<le> 4" by simp_all
  from sconvolve_flipped_correlation [OF s l(1) l(1) l(2)]
  obtain out where out: "sconvolve ?arr ?filt = Inr out"
    "\<forall>z. 3 div 2 \<le> z \<and> z < 4 - 3 div 2 \<longrightarrow>
              out ! z = (\<Sum>ii<3. \<Sum>jj<3. \<Sum>kk<3.
                 data3 ?filt (3 - 1 - ii) (3 - 1 - jj) (3 - 1 - kk) *
                 data3 ?arr (3 div 2 - 3 div 2 + ii) (3 div 2 - 3 div 2 + jj) (z - 3 div 2 + kk))"
    by blast
  have "out ! 1 = 216"
    using out(2) [rule_format, of 1] by (simp add: sum3)
  moreover have "out ! 2 = 378"
    using out(2) [rule_format, of 2] by (simp add: sum3)
  ultimately show ?thesis
    using out(1) by blast
qed

text \<open>
  Claim C10. Whenever either copy of the function returns, for a block and a kernel of any
  shapes, the vector has the length of the block's z-extent and holds zero at every position outside the
  range the loop writes; and the call does return when the block is at least as large as
  the kernel.
\<close>

theorem sconvolve_zero_outside_range:
  assumes "shape3 arr = (X, Y, Z)" "shape3 filt = (Xf, Yf, Zf)"
  shows "(\<forall>res. sconvolve arr filt = Inr res \<or> xl_sconvolve arr filt = Inr res \<longrightarrow>
            length res = Z \<and> (\<forall>z<Z. z < Zf div 2 \<or> Z - Zf div 2 \<le> z \<longrightarrow> res ! z = 0)) \<and>
         (Xf \<le> X \<and> Yf \<le> Y \<and> Zf \<le> Z \<longrightarrow>
            (\<exists>res. sconvolve arr filt = Inr res \<and> xl_sconvolve arr filt = Inr res))"
proof
  show "\<forall>res. sconvolve arr filt = Inr res \<or> xl_sconvolve arr filt = Inr res \<longrightarrow>
            length res = Z \<and> (\<forall>z<Z. z < Zf div 2 \<or> Z - Zf div 2 \<le> z \<longrightarrow> res ! z = 0)"
    unfolding xl_sconvolve_eq using sconvolve_frame [OF _ assms] by blast
  show "Xf \<le> X \<and> Yf \<le> Y \<and> Zf \<le> Z \<longrightarrow>
            (\<exists>res. sconvolve arr filt = Inr res \<and> xl_sconvolve arr filt = Inr res)"
    unfolding xl_sconvolve_eq using sconvolve_total [OF assms] by blast
qed

theorem sconvolve_zero_outside_range_witness:
  "\<exists>res. sconvolve \<lparr>shape3 = (3, 3, 4), data3 = (\<lambda>i j k. real (i + 2 * j + 3 * k))\<rparr>
                    \<lparr>shape3 = (3, 3, 3), data3 = (\<lambda>i j k. real (i * j + k))\<rparr> = Inr res \<and>
         length res = 4 \<and> res ! 0 = 0 \<and> res ! 3 = 0"
proof -
  let ?arr = "\<lparr>shape3 = (3, 3, 4), data3 = (\<lambda>i j k. real (i + 2 * j + 3 * k))\<rparr>"
  let ?filt = "\<lparr>shape3 = (3, 3, 3), data3 = (\<lambda>i j k. real (i * j + k))\<rparr>"
  have s: "shape3 ?arr = (3, 3, 4)" "shape3 ?filt = (3, 3, 3)" by simp_all
  note t = sconvolve_zero_outside_range [OF s]
  from t obtain res where res: "sconvolve ?arr ?filt = Inr res" by auto
  with t have f: "length res = 4" "\<forall>z<4. z < 3 div 2 \<or> 4 - 3 div 2 \<le> z \<longrightarrow> res ! z = 0"
    by blast+
  have "res ! 0 = 0" using f(2) [rule_format, of 0] by simp
  moreover have "res ! 3 = 0" using f(2) [rule_format, of 3] by simp
  ultimately show ?thesis using res f(1) by blast
qed

text \<open>
  Claim C4, as the code behaves. The function checks no shape and knows no ShapeError. A
  block whose z-extent is below the kernel's leaves the loop empty, so the call returns a
  vector of zeros whatever the other extents are; and the only exception the function ever
  raises is the IndexError of an array read. The copy in \<open>extlib.py\<close>, which the
  eigenvalue script calls, behaves the same.
\<close>

theorem sconvolve_small_block:
  assumes "shape3 arr = (X, Y, Z)" "shape3 filt = (Xf, Yf, Zf)"
  shows "(Z < Zf \<longrightarrow> sconvolve arr filt = Inr (replicate Z 0)) \<and>
         ((\<exists>res. sconvolve arr filt = Inr res) \<or> sconvolve arr filt = Inl IndexError) \<and>
         xl_sconvolve arr filt = sconvolve arr filt"
proof (intro conjI)
  show "Z < Zf \<longrightarrow> sconvolve arr filt = Inr (replicate Z 0)"
    using sconvolve_empty_range [OF assms(1) sconvolve_range_empty [OF assms]] by blast
  show "(\<exists>res. sconvolve arr filt = Inr res) \<or> sconvolve arr filt = Inl IndexError"
    using sconvolve_error [of arr filt] by (cases "sconvolve arr filt") auto
  show "xl_sconvolve arr filt = sconvolve arr filt"
    by (rule xl_sconvolve_eq)
qed

theorem sconvolve_small_block_witness:
  "sconvolve \<lparr>shape3 = (3, 3, 2), data3 = (\<lambda>i j k. real (i + 2 * j + 3 * k))\<rparr>
             \<lparr>shape3 = (3, 3, 3), data3 = (\<lambda>i j k. real (i * j + k))\<rparr> = Inr [0, 0]"
proof -
  let ?arr = "\<lparr>shape3 = (3, 3, 2), data3 = (\<lambda>i j k. real (i + 2 * j + 3 * k))\<rparr>"
  let ?filt = "\<lparr>shape3 = (3, 3, 3), data3 = (\<lambda>i j k. real (i * j + k))\<rparr>"
  have s: "shape3 ?arr = (3, 3, 2)" "shape3 ?filt = (3, 3, 3)" by simp_all
  have r: "replicate 2 (0::real) = [0, 0]" by (simp add: numeral_2_eq_2)
  have "sconvolve ?arr ?filt = Inr (replicate 2 0)"
    using sconvolve_small_block [OF s] by simp
  then show ?thesis
    unfolding r .
qed

text \<open>
  Claim C4 as stated fails: a 3 by 3 by 2 block against a 3 by 3 by 3 kernel is answered
  with two zeros, not with an exception.
\<close>

theorem sconvolve_small_block_counterexample:
  "sconvolve \<lparr>shape3 = (3, 3, 2), data3 = (\<lambda>i j k. 1)\<rparr>
             \<lparr>shape3 = (3, 3, 3), data3 = (\<lambda>i j k. 1)\<rparr> = Inr [0, 0]"
proof -
  let ?arr = "\<lparr>shape3 = (3, 3, 2), data3 = (\<lambda>i j k. 1)\<rparr>"
  let ?filt = "\<lparr>shape3 = (3, 3, 3), data3 = (\<lambda>i j k. 1)\<rparr>"
  have s: "shape3 ?arr = (3, 3, 2)" by simp
  have e: "sconvolve_range ?arr ?filt = []"
    by (simp add: sconvolve_range_def py_range_def)
  have r: "replicate 2 (0::real) = [0, 0]" by (simp add: numeral_2_eq_2)
  show ?thesis
    using sconvolve_empty_range [OF s e] unfolding r .
qed

section \<open>Claims about the orientation tensor and the kernel construction\<close>

text \<open>
  Claim C5. The tensor of a sample is \<open>Ah Ah\<^sup>T + g b b\<^sup>T\<close> for the curvature matrix
  \<open>Ah\<close> and the gradient \<open>b\<close> built from the coefficients \<open>r1\<close> to \<open>r9\<close> of the
  sample. For a mixing constant \<open>g \<ge> 0\<close> it is symmetric, its quadratic form is nowhere
  negative, and every eigenvalue, taken over the complex numbers, is real and not
  negative. So whenever the solver returns three eigenvalues of the tensor, the outputs
  \<open>e1\<close>, \<open>e2\<close> and \<open>e3\<close> of the sample are not negative.
\<close>

theorem tensor_symmetric_psd:
  fixes r :: "real list list" and g :: real and s :: nat
  defines "Ah \<equiv> [[r ! 4 ! s, r ! 7 ! s / 2, r ! 8 ! s / 2],
                  [r ! 7 ! s / 2, r ! 5 ! s, r ! 9 ! s / 2],
                  [r ! 8 ! s / 2, r ! 9 ! s / 2, r ! 6 ! s]]"
    and "gv \<equiv> [r ! 1 ! s, r ! 2 ! s, r ! 3 ! s]"
  assumes "0 \<le> g"
  shows "(\<forall>i<3. \<forall>j<3. data2 (tensor r g s) i j =
            (\<Sum>k<3. Ah ! i ! k * Ah ! j ! k) + g * (gv ! i * gv ! j)) \<and>
         (\<forall>i<3. \<forall>j<3. data2 (tensor r g s) i j = data2 (tensor r g s) j i) \<and>
         (\<forall>v. 0 \<le> (\<Sum>i<3. \<Sum>j<3. v i * data2 (tensor r g s) i j * v j)) \<and>
         (\<forall>lam v. (\<exists>i<3. v i \<noteq> 0) \<and>
                   (\<forall>i<3. (\<Sum>j<3. complex_of_real (data2 (tensor r g s) i j) * v j) = lam * v i) \<longrightarrow>
                   Im lam = 0 \<and> 0 \<le> Re lam) \<and>
         (\<forall>eigvalsh nrsamp e1 e2 e3.
             eigen_outputs eigvalsh r g nrsamp = (e1, e2, e3) \<and> s < nrsamp \<and>
             length (eigvalsh (tensor r g s)) = 3 \<and>
             (\<forall>lam\<in>set (eigvalsh (tensor r g s)).
                 \<exists>v. (\<exists>i<3. v i \<noteq> 0) \<and>
                     (\<forall>i<3. (\<Sum>j<3. data2 (tensor r g s) i j * v j) = lam * v i)) \<longrightarrow>
             0 \<le> e3 ! s \<and> 0 \<le> e2 ! s \<and> 0 \<le> e1 ! s)"
proof (intro conjI)
  show "\<forall>i<3. \<forall>j<3. data2 (tensor r g s) i j =
            (\<Sum>k<3. Ah ! i ! k * Ah ! j ! k) + g * (gv ! i * gv ! j)"
    unfolding Ah_def gv_def using tensor_assembly [of _ _ r g s] by blast
next
  show "\<forall>i<3. \<forall>j<3. data2 (tensor r g s) i j = data2 (tensor r g s) j i"
  proof (intro allI impI)
    fix i j :: nat
    assume "i < 3" "j < 3"
    then have "(i = 0 \<or> i = 1 \<or> i = 2) \<and> (j = 0 \<or> j = 1 \<or> j = 2)" by auto
    then show "data2 (tensor r g s) i j = data2 (tensor r g s) j i"
      using tensor_symmetric [of r g s] by auto
  qed
next
  show "\<forall>v. 0 \<le> (\<Sum>i<3. \<Sum>j<3. v i * data2 (tensor r g s) i j * v j)"
  proof
    fix v :: "nat \<Rightarrow> real"
    have "(\<Sum>i<3. \<Sum>j<3. v i * data2 (tensor r g s) i j * v j) =
        v 0 * (data2 (tensor r g s) 0 0 * v 0 + data2 (tensor r g s) 0 1 * v 1 + data2 (tensor r g s) 0 2 * v 2) +
        v 1 * (data2 (tensor r g s) 0 1 * v 0 + data2 (tensor r g s) 1 1 * v 1 + data2 (tensor r g s) 1 2 * v 2) +
        v 2 * (data2 (tensor r g s) 0 2 * v 0 + data2 (tensor r g s) 1 2 * v 1 + data2 (tensor r g s) 2 2 * v 2)"
      unfolding sum3 tensor_symmetric by (simp add: algebra_simps)
    then show "0 \<le> (\<Sum>i<3. \<Sum>j<3. v i * data2 (tensor r g s) i j * v j)"
      using tensor_form_nonneg [OF assms(3), of "v 0" r s "v 1" "v 2"] by simp
  qed
next
  show "\<forall>lam v. (\<exists>i<3. v i \<noteq> 0) \<and>
                   (\<forall>i<3. (\<Sum>j<3. complex_of_real (data2 (tensor r g s) i j) * v j) = lam * v i) \<longrightarrow>
                   Im lam = 0 \<and> 0 \<le> Re lam"
    using tensor_eigen_nonneg [OF assms(3)] by blast
next
  show "\<forall>eigvalsh nrsamp e1 e2 e3.
             eigen_outputs eigvalsh r g nrsamp = (e1, e2, e3) \<and> s < nrsamp \<and>
             length (eigvalsh (tensor r g s)) = 3 \<and>
             (\<forall>lam\<in>set (eigvalsh (tensor r g s)).
                 \<exists>v. (\<exists>i<3. v i \<noteq> 0) \<and>
                     (\<forall>i<3. (\<Sum>j<3. data2 (tensor r g s) i j * v j) = lam * v i)) \<longrightarrow>
             0 \<le> e3 ! s \<and> 0 \<le> e2 ! s \<and> 0 \<le> e1 ! s"
  proof (intro allI impI)
    fix eigvalsh :: "ndarray2 \<Rightarrow> real list" and nrsamp :: nat and e1 e2 e3 :: "real list"
    assume a: "eigen_outputs eigvalsh r g nrsamp = (e1, e2, e3) \<and> s < nrsamp \<and>
             length (eigvalsh (tensor r g s)) = 3 \<and>
             (\<forall>lam\<in>set (eigvalsh (tensor r g s)).
                 \<exists>v. (\<exists>i<3. v i \<noteq> 0) \<and>
                     (\<forall>i<3. (\<Sum>j<3. data2 (tensor r g s) i j * v j) = lam * v i))"
    let ?l = "eigvalsh (tensor r g s)"
    have pos: "0 \<le> lam" if "lam \<in> set ?l" for lam
    proof -
      from a that obtain v where "\<exists>i<3. v i \<noteq> 0"
        "\<forall>i<3. (\<Sum>j<3. data2 (tensor r g s) i j * v j) = lam * v i"
        by blast
      then show ?thesis by (rule tensor_real_eigen_nonneg [OF assms(3)])
    qed
    from a have s: "s < nrsamp" and len: "length ?l = 3" by blast+
    have "e1 ! s = sort ?l ! 2" "e2 ! s = sort ?l ! 1" "e3 ! s = sort ?l ! 0"
      using eigen_outputs_nth [OF s, of eigvalsh r g] a by simp_all
    with sort3_member [OF len] pos show "0 \<le> e3 ! s \<and> 0 \<le> e2 ! s \<and> 0 \<le> e1 ! s"
      by simp
  qed
qed

theorem tensor_symmetric_psd_witness:
  "(0::real) \<le> 2 \<and>
   data2 (tensor [[0], [1], [0], [0], [1], [2], [3], [0], [0], [0]] 2 0) 0 0 = 3 \<and>
   eigen_outputs (\<lambda>m. [data2 m 0 0, data2 m 1 1, data2 m 2 2])
      [[0], [1], [0], [0], [1], [2], [3], [0], [0], [0]] 2 1 = ([9], [4], [3]) \<and>
   (0::real) \<le> [3] ! 0"
proof -
  let ?r = "[[0], [1], [0], [0], [1], [2], [3], [0], [0], [0::real]]"
  let ?ev = "\<lambda>m. [data2 m 0 0, data2 m 1 1, data2 m 2 (2::nat)]"
  let ?T = "tensor ?r 2 0"
  have g: "(0::real) \<le> 2" by simp
  note psd = tensor_symmetric_psd [OF g, where r = ?r and s = 0]
  from psd have entries: "\<And>i j. i < 3 \<Longrightarrow> j < 3 \<Longrightarrow> data2 ?T i j =
            (\<Sum>k<3. [[?r ! 4 ! 0, ?r ! 7 ! 0 / 2, ?r ! 8 ! 0 / 2],
                      [?r ! 7 ! 0 / 2, ?r ! 5 ! 0, ?r ! 9 ! 0 / 2],
                      [?r ! 8 ! 0 / 2, ?r ! 9 ! 0 / 2, ?r ! 6 ! 0]] ! i ! k *
                     [[?r ! 4 ! 0, ?r ! 7 ! 0 / 2, ?r ! 8 ! 0 / 2],
                      [?r ! 7 ! 0 / 2, ?r ! 5 ! 0, ?r ! 9 ! 0 / 2],
                      [?r ! 8 ! 0 / 2, ?r ! 9 ! 0 / 2, ?r ! 6 ! 0]] ! j ! k) +
            2 * ([?r ! 1 ! 0, ?r ! 2 ! 0, ?r ! 3 ! 0] ! i * [?r ! 1 ! 0, ?r ! 2 ! 0, ?r ! 3 ! 0] ! j)"
    by blast
  have t: "data2 ?T 0 0 = 3" "data2 ?T 0 1 = 0" "data2 ?T 0 2 = 0"
    "data2 ?T 1 0 = 0" "data2 ?T 1 1 = 4" "data2 ?T 1 2 = 0"
    "data2 ?T 2 0 = 0" "data2 ?T 2 1 = 0" "data2 ?T 2 2 = 9"
    using entries [of 0 0] entries [of 0 1] entries [of 0 2]
      entries [of 1 0] entries [of 1 1] entries [of 1 2]
      entries [of 2 0] entries [of 2 1] entries [of 2 2]
    by (simp_all add: sum3)
  have e: "eigen_outputs ?ev ?r 2 1 = ([9], [4], [3])"
    by (simp add: eigen_outputs_def t t [unfolded One_nat_def])
  have l: "length (?ev ?T) = 3" by simp
  have h3: "\<exists>v. (\<exists>i<3. v i \<noteq> 0) \<and> (\<forall>i<3. (\<Sum>j<3. data2 ?T i j * v j) = 3 * v i)"
    by (rule exI [of _ "\<lambda>i. if i = 0 then 1 else 0"]) (simp add: all_less_3 ex_less_3 sum3 t t [unfolded One_nat_def])
  have h4: "\<exists>v. (\<exists>i<3. v i \<noteq> 0) \<and> (\<forall>i<3. (\<Sum>j<3. data2 ?T i j * v j) = 4 * v i)"
    by (rule exI [of _ "\<lambda>i. if i = 1 then 1 else 0"]) (simp add: all_less_3 ex_less_3 sum3 t t [unfolded One_nat_def])
  have h9: "\<exists>v. (\<exists>i<3. v i \<noteq> 0) \<and> (\<forall>i<3. (\<Sum>j<3. data2 ?T i j * v j) = 9 * v i)"
    by (rule exI [of _ "\<lambda>i. if i = 2 then 1 else 0"]) (simp add: all_less_3 ex_less_3 sum3 t t [unfolded One_nat_def])
  have s: "set (?ev ?T) = {3, 4, 9}" by (simp add: t t [unfolded One_nat_def])
  have h: "\<forall>lam\<in>set (?ev ?T). \<exists>v. (\<exists>i<3. v i \<noteq> 0) \<and> (\<forall>i<3. (\<Sum>j<3. data2 ?T i j * v j) = lam * v i)"
    unfolding s using h3 h4 h9 by blast
  from psd have "eigen_outputs ?ev ?r 2 1 = ([9], [4], [3]) \<and> (0::nat) < 1 \<and> length (?ev ?T) = 3 \<and>
      (\<forall>lam\<in>set (?ev ?T). \<exists>v. (\<exists>i<3. v i \<noteq> 0) \<and> (\<forall>i<3. (\<Sum>j<3. data2 ?T i j * v j) = lam * v i)) \<longrightarrow>
      (0::real) \<le> [3] ! 0 \<and> (0::real) \<le> [4] ! 0 \<and> (0::real) \<le> [9] ! 0"
    by blast
  with e l h have "(0::real) \<le> [3] ! 0" by blast
  with g t(1) e show ?thesis by blast
qed

text \<open>
  Claim C6. Whatever three values the eigenvalue solver returns for the tensor of a sample,
  the outputs are those values with \<open>e3 \<le> e2 \<le> e1\<close>.
\<close>

theorem eigen_outputs_descending:
  assumes "eigen_outputs eigvalsh r g nrsamp = (e1, e2, e3)"
    and "s < nrsamp" "length (eigvalsh (tensor r g s)) = 3"
  shows "e3 ! s \<le> e2 ! s \<and> e2 ! s \<le> e1 ! s \<and>
         mset [e3 ! s, e2 ! s, e1 ! s] = mset (eigvalsh (tensor r g s))"
proof -
  let ?l = "eigvalsh (tensor r g s)"
  have "e1 ! s = sort ?l ! 2" "e2 ! s = sort ?l ! 1" "e3 ! s = sort ?l ! 0"
    using assms(1,2) by (auto simp: eigen_outputs_def Let_def)
  with sort3 [OF assms(3)] show ?thesis by simp
qed

theorem eigen_outputs_descending_witness:
  "eigen_outputs (\<lambda>m. [data2 m 0 0, data2 m 1 1, data2 m 2 2])
      [[0], [1], [2], [3], [4], [5], [6], [7], [8], [9]] 1 1 = ([325 / 4], [123 / 2], [181 / 4]) \<and>
   (181 / 4 :: real) \<le> 123 / 2 \<and> (123 / 2 :: real) \<le> 325 / 4"
proof -
  let ?ev = "\<lambda>m. [data2 m 0 0, data2 m 1 1, data2 m 2 (2::nat)]"
  let ?r = "[[0], [1], [2], [3], [4], [5], [6], [7], [8], [9::real]]"
  have e: "eigen_outputs ?ev ?r 1 1 = ([325 / 4], [123 / 2], [181 / 4])"
    by (simp add: eigen_outputs_def tensor_def curvature_def gradient_def einsum_ij_jk_def
        transpose2_def lessThan_nat_numeral lessThan_Suc)
  have l: "length (?ev (tensor ?r 1 0)) = 3" by simp
  from eigen_outputs_descending [OF e _ l] e show ?thesis by simp
qed

text \<open>
  Claim C7, as the code behaves. The mixing constant is \<open>1 / (8 ((min(xs, ys, zs) - 1) wfac)\<^sup>2)\<close>
  evaluated in binary64 arithmetic. For a 5 by 5 by 5 window and the weight factor 0.2
  the exact value is 0.1953125 and the program computes \<open>0.1953125 - 2\<^sup>-\<^sup>5\<^sup>5\<close>, which
  prints as 0.19531249999999997. In general, when \<open>min(xs, ys, zs) - 1\<close> is below
  \<open>2\<^sup>5\<^sup>3\<close> in magnitude and its product with the weight factor lies between
  \<open>2\<^sup>-\<^sup>5\<^sup>0\<^sup>0\<close> and \<open>2\<^sup>5\<^sup>0\<^sup>0\<close> in magnitude, the program returns a finite value
  within the relative error \<open>2\<^sup>-\<^sup>5\<^sup>0\<close> of the exact one.
\<close>

theorem gam_binary64_rounded:
  "gam_binary64 5 5 5 (b64_round (2 / 10)) = Inr (Finite (1953125 / 10000000 - 1 / 2 ^ 55)) \<and>
   gam 5 5 5 (2 / 10) = Inr (1953125 / 10000000) \<and>
   (\<bar>min xs (min ys zs) - 1\<bar> < 2 ^ 53 \<and>
    1 / 2 ^ 500 \<le> \<bar>of_int (min xs (min ys zs) - 1) * w\<bar> \<and>
    \<bar>of_int (min xs (min ys zs) - 1) * w\<bar> \<le> 2 ^ 500 \<longrightarrow>
      (\<exists>y g. gam_binary64 xs ys zs (Finite w) = Inr (Finite y) \<and> gam xs ys zs w = Inr g \<and>
             g = 1 / (8 * (of_int (min xs (min ys zs) - 1) * w)\<^sup>2) \<and> \<bar>y - g\<bar> \<le> g / 2 ^ 50))"
proof (intro conjI impI)
  show "gam_binary64 5 5 5 (b64_round (2 / 10)) = Inr (Finite (1953125 / 10000000 - 1 / 2 ^ 55))"
    by (simp add: b64_eval)
  show "gam 5 5 5 (2 / 10) = Inr (1953125 / 10000000)"
    by (simp add: gam_def py_truediv_def power2_eq_square)
next
  assume a: "\<bar>min xs (min ys zs) - 1\<bar> < 2 ^ 53 \<and>
    1 / 2 ^ 500 \<le> \<bar>of_int (min xs (min ys zs) - 1) * w\<bar> \<and>
    \<bar>of_int (min xs (min ys zs) - 1) * w\<bar> \<le> 2 ^ 500"
  then have m: "\<bar>min xs (min ys zs) - 1\<bar> < 2 ^ 53"
    and lo: "1 / 2 ^ 500 \<le> \<bar>of_int (min xs (min ys zs) - 1) * w\<bar>"
    and hi: "\<bar>of_int (min xs (min ys zs) - 1) * w\<bar> \<le> 2 ^ 500"
    by blast+
  from gam_binary64_close [OF m lo hi] obtain y where
    y: "gam_binary64 xs ys zs (Finite w) = Inr (Finite y)"
      "\<bar>y - 1 / (8 * (of_int (min xs (min ys zs) - 1) * w)\<^sup>2)\<bar> \<le>
               1 / (8 * (of_int (min xs (min ys zs) - 1) * w)\<^sup>2) / 2 ^ 50"
    by blast
  have "(0::real) < 1 / 2 ^ 500" by simp
  with lo have "real_of_int (min xs (min ys zs) - 1) * w \<noteq> 0" by linarith
  then have "gam xs ys zs w = Inr (1 / (8 * (of_int (min xs (min ys zs) - 1) * w)\<^sup>2))"
    by (simp add: gam_def py_truediv_def)
  with y show "\<exists>y g. gam_binary64 xs ys zs (Finite w) = Inr (Finite y) \<and> gam xs ys zs w = Inr g \<and>
             g = 1 / (8 * (of_int (min xs (min ys zs) - 1) * w)\<^sup>2) \<and> \<bar>y - g\<bar> \<le> g / 2 ^ 50"
    by blast
qed

theorem gam_binary64_rounded_witness:
  "gam_binary64 5 5 5 (Finite (3602879701896397 / 2 ^ 54)) = Inr (Finite (25 / 128 - 1 / 2 ^ 55)) \<and>
   gam 5 5 5 (3602879701896397 / 2 ^ 54) = Inr (1 / (8 * (4 * (3602879701896397 / 2 ^ 54))\<^sup>2)) \<and>
   \<bar>25 / 128 - 1 / 2 ^ 55 - 1 / (8 * (4 * (3602879701896397 / 2 ^ 54))\<^sup>2)\<bar> \<le>
     1 / (8 * (4 * (3602879701896397 / 2 ^ 54 :: real))\<^sup>2) / 2 ^ 50"
proof -
  let ?w = "3602879701896397 / 2 ^ 54 :: real"
  have "\<bar>min 5 (min 5 5) - 1\<bar> < (2 ^ 53 :: int) \<and>
    1 / 2 ^ 500 \<le> \<bar>of_int (min 5 (min 5 5) - 1) * ?w\<bar> \<and>
    \<bar>of_int (min 5 (min 5 5) - 1) * ?w\<bar> \<le> 2 ^ 500"
    by simp
  with gam_binary64_rounded [of 5 5 5 ?w] obtain y g where
    y: "gam_binary64 5 5 5 (Finite ?w) = Inr (Finite y)" and g: "gam 5 5 5 ?w = Inr g"
    and ge: "g = 1 / (8 * (of_int (min 5 (min 5 5) - 1) * ?w)\<^sup>2)"
    and err: "\<bar>y - g\<bar> \<le> g / 2 ^ 50"
    by blast
  have v: "gam_binary64 5 5 5 (Finite ?w) = Inr (Finite (25 / 128 - 1 / 2 ^ 55))"
    by (simp add: b64_eval)
  with y have y': "y = 25 / 128 - 1 / 2 ^ 55" by simp
  have g': "g = 1 / (8 * (4 * ?w)\<^sup>2)"
    unfolding ge by simp
  show ?thesis
    using v g err unfolding y' g' by blast
qed

text \<open>
  Claim C7 as stated fails: for a 5 by 5 by 5 window and the weight factor 0.2 the
  program does not return 0.1953125.
\<close>

theorem gam_binary64_rounded_counterexample:
  "gam_binary64 5 5 5 (b64_round (2 / 10)) \<noteq> Inr (Finite (1953125 / 10000000))"
  by (simp add: b64_eval)

text \<open>
  Claim C8. The two copies of \<open>lpa3D_init\<close> and the two copies of \<open>sconvolve\<close> return
  the same result on every input.
\<close>

theorem duplicated_implementations_agree:
  "lpa3D_init_eigenvals xs ys zs sigma = lpa3D_init xs ys zs sigma \<and>
   xl_sconvolve arr filt = sconvolve arr filt"
  using lpa3D_init_eigenvals_eq xl_sconvolve_eq by simp

text \<open>
  Claim C9. For window extents of at least 1, the kernel construction divides by zero
  exactly when an extent is 1 or sigma is 0, and the mixing constant divides by zero exactly
  when the smallest extent is 1 or the weight factor is 0. So extents of at least 1 do not
  exclude the division by zero: a 10 by 1 by 1 window runs into both.
\<close>

theorem division_by_zero_conditions:
  assumes "1 \<le> xs" "1 \<le> ys" "1 \<le> zs"
  shows "(lpa3D_init xs ys zs sigma = Inl FloatingPointError \<longleftrightarrow>
            xs = 1 \<or> ys = 1 \<or> zs = 1 \<or> sigma = 0) \<and>
         (gam xs ys zs sigma = Inl ZeroDivisionError \<longleftrightarrow>
            min xs (min ys zs) = 1 \<or> sigma = 0)"
proof
  have n: "nat xs * nat ys * nat zs \<noteq> 0" using assms by simp
  have z: "sigma * of_int (xs - 1) = 0 \<or> sigma * of_int (ys - 1) = 0 \<or> sigma * of_int (zs - 1) = 0 \<longleftrightarrow>
        xs = 1 \<or> ys = 1 \<or> zs = 1 \<or> sigma = 0"
    by auto
  have s: "lpa3D_init xs ys zs sigma =
     (if xs = 1 \<or> ys = 1 \<or> zs = 1 \<or> sigma = 0 then Inl FloatingPointError
      else lpa_solve (grid_x (nat xs) (nat ys) (nat zs)) (grid_y (nat xs) (nat ys) (nat zs))
             (grid_z (nat xs) (nat ys) (nat zs)) (grid_w (nat xs) (nat ys) (nat zs) sigma)
             (nat xs) (nat ys) (nat zs))"
    using lpa3D_init_stages [of xs ys zs sigma] assms n unfolding z by simp
  show "lpa3D_init xs ys zs sigma = Inl FloatingPointError \<longleftrightarrow> xs = 1 \<or> ys = 1 \<or> zs = 1 \<or> sigma = 0"
    unfolding s by (auto split: if_splits dest: lpa_solve_error)
  show "gam xs ys zs sigma = Inl ZeroDivisionError \<longleftrightarrow> min xs (min ys zs) = 1 \<or> sigma = 0"
    by (auto simp: gam_def py_truediv_def)
qed

theorem division_by_zero_conditions_witness:
  "lpa3D_init 10 1 1 (1 / 5) = Inl FloatingPointError \<and> gam 10 1 1 (1 / 5) = Inl ZeroDivisionError"
proof -
  have h: "(1::int) \<le> 10" "(1::int) \<le> 1" by simp_all
  show ?thesis
    using division_by_zero_conditions [OF h(1) h(2) h(2), of "1 / 5"] by simp
qed

section \<open>Claims about the kernel set\<close>

text \<open>
  Claim C1, as the code behaves. For every window with all three extents at least 3 and
  every sigma that keeps the squares, the divisors and the weights in the normal range of
  binary64, the construction returns ten kernels of the window's shape, and summing kernel
  \<open>k\<close> against the \<open>j\<close>-th monomial over the window gives 1 for \<open>j = k\<close> and 0
  otherwise. The coordinates are centred on the window: its sample \<open>ii\<close> along an axis of
  extent \<open>X\<close> has the coordinate \<open>ii - (X - 1) / 2\<close>, which for an odd extent is the
  offset from the output position and for an even extent that offset plus one half. The
  convolution reads the kernel backwards, so for a block that samples the polynomial
  \<open>quadric c\<close> in these coordinates around an output position, the ten outputs there are
  \<open>c k\<close> for the even monomials and \<open>- c k\<close> for the three linear ones. For a block of
  constant value \<open>v\<close> the output \<open>r0\<close> is \<open>v\<close> and the other nine are 0 at every
  position of the valid range.
\<close>

theorem lpa_kernels_exact:
  fixes X Y Z :: nat
  assumes "3 \<le> X" "3 \<le> Y" "3 \<le> Z" "weights_in_range (int X) (int Y) (int Z) sigma"
  shows "\<exists>K. lpa3D_init (int X) (int Y) (int Z) sigma = Inr K \<and> length K = 10 \<and>
           (\<forall>k<10. \<forall>j<10.
              (\<Sum>ix<X. \<Sum>iy<Y. \<Sum>iz<Z. data3 (K ! k) ix iy iz *
                  monomial j (real ix - (real X - 1) / 2) (real iy - (real Y - 1) / 2)
                    (real iz - (real Z - 1) / 2)) = (if j = k then 1 else 0)) \<and>
           (\<forall>arr Xa Ya Za c zz.
              shape3 arr = (Xa, Ya, Za) \<and> X \<le> Xa \<and> Y \<le> Ya \<and> Z div 2 \<le> zz \<and> zz < Za - Z div 2 \<and>
              (\<forall>ii<X. \<forall>jj<Y. \<forall>kk<Z.
                  data3 arr (Xa div 2 - X div 2 + ii) (Ya div 2 - Y div 2 + jj) (zz - Z div 2 + kk) =
                  quadric c (real ii - (real X - 1) / 2) (real jj - (real Y - 1) / 2)
                    (real kk - (real Z - 1) / 2)) \<longrightarrow>
              (\<exists>R. coef_outputs K arr = Inr R \<and> length R = 10 \<and>
                   (\<forall>k<10. R ! k ! zz = (if k = 1 \<or> k = 2 \<or> k = 3 then - c k else c k)))) \<and>
           (\<forall>arr Xa Ya Za v.
              shape3 arr = (Xa, Ya, Za) \<and> X \<le> Xa \<and> Y \<le> Ya \<and> (\<forall>i j k. data3 arr i j k = v) \<longrightarrow>
              (\<exists>R. coef_outputs K arr = Inr R \<and> length R = 10 \<and>
                   (\<forall>zz. Z div 2 \<le> zz \<and> zz < Za - Z div 2 \<longrightarrow>
                      R ! 0 ! zz = v \<and> (\<forall>k. 1 \<le> k \<and> k < 10 \<longrightarrow> R ! k ! zz = 0))))"
proof -
  have nz: "sigma \<noteq> 0"
    using assms(4) by (rule weights_in_range_nonzero)
  from lpa_kernels_apply [OF assms(1-3) nz] obtain K where
    K: "lpa3D_init (int X) (int Y) (int Z) sigma = Inr K" "length K = 10"
    and sh: "\<forall>k<10. shape3 (K ! k) = (X, Y, Z)"
    and id: "\<forall>k<10. \<forall>j<10.
              (\<Sum>ix<X. \<Sum>iy<Y. \<Sum>iz<Z. data3 (K ! k) ix iy iz *
                  monomial j (real ix - (real X - 1) / 2) (real iy - (real Y - 1) / 2)
                    (real iz - (real Z - 1) / 2)) = (if j = k then 1 else 0)"
    and app: "\<And>arr Xa Ya Za c zz k.
              shape3 arr = (Xa, Ya, Za) \<and> X \<le> Xa \<and> Y \<le> Ya \<and> Z div 2 \<le> zz \<and> zz < Za - Z div 2 \<and> k < 10 \<and>
              (\<forall>ii<X. \<forall>jj<Y. \<forall>kk<Z.
                  data3 arr (Xa div 2 - X div 2 + ii) (Ya div 2 - Y div 2 + jj) (zz - Z div 2 + kk) =
                  quadric c (real ii - (real X - 1) / 2) (real jj - (real Y - 1) / 2)
                    (real kk - (real Z - 1) / 2)) \<Longrightarrow>
              (\<exists>out. sconvolve arr (K ! k) = Inr out \<and> length out = Za \<and>
                     out ! zz = parity_sign k * c k)"
    by blast
  have poly: "\<exists>R. coef_outputs K arr = Inr R \<and> length R = 10 \<and>
                   (\<forall>k<10. R ! k ! zz = (if k = 1 \<or> k = 2 \<or> k = 3 then - c k else c k))"
    if a: "shape3 arr = (Xa, Ya, Za) \<and> X \<le> Xa \<and> Y \<le> Ya \<and> Z div 2 \<le> zz \<and> zz < Za - Z div 2 \<and>
              (\<forall>ii<X. \<forall>jj<Y. \<forall>kk<Z.
                  data3 arr (Xa div 2 - X div 2 + ii) (Ya div 2 - Y div 2 + jj) (zz - Z div 2 + kk) =
                  quadric c (real ii - (real X - 1) / 2) (real jj - (real Y - 1) / 2)
                    (real kk - (real Z - 1) / 2))"
    for arr Xa Ya Za c zz
  proof (rule coef_outputs_exact [OF sh], intro allI impI)
    fix k :: nat assume k: "k < 10"
    from app [of arr Xa Ya Za zz k c] a k obtain out where
      "sconvolve arr (K ! k) = Inr out" "out ! zz = parity_sign k * c k"
      by blast
    then show "\<exists>out. sconvolve arr (K ! k) = Inr out \<and>
                 out ! zz = (if k = 1 \<or> k = 2 \<or> k = 3 then - c k else c k)"
      by (auto simp: parity_sign_def)
  qed
  have const: "\<exists>R. coef_outputs K arr = Inr R \<and> length R = 10 \<and>
                   (\<forall>zz. Z div 2 \<le> zz \<and> zz < Za - Z div 2 \<longrightarrow>
                      R ! 0 ! zz = v \<and> (\<forall>k. 1 \<le> k \<and> k < 10 \<longrightarrow> R ! k ! zz = 0))"
    if a: "shape3 arr = (Xa, Ya, Za) \<and> X \<le> Xa \<and> Y \<le> Ya \<and> (\<forall>i j k. data3 arr i j k = v)"
    for arr Xa Ya Za v
  proof -
    have "\<exists>R. coef_outputs K arr = Inr R \<and> length R = 10 \<and>
            (\<forall>k<10. \<forall>zz. Z div 2 \<le> zz \<and> zz < Za - Z div 2 \<longrightarrow> R ! k ! zz = (if k = 0 then v else 0))"
    proof (rule coef_outputs_exact [OF sh], intro allI impI)
      fix k :: nat assume k: "k < 10"
      from sconvolve_total [of arr Xa Ya Za "K ! k" X Y Z] a sh k obtain out where
        out: "sconvolve arr (K ! k) = Inr out"
        by blast
      have "out ! zz = (if k = 0 then v else 0)" if z: "Z div 2 \<le> zz \<and> zz < Za - Z div 2" for zz
      proof -
        from app [of arr Xa Ya Za zz k "\<lambda>k. if k = 0 then v else 0"] a k z obtain out' where
          "sconvolve arr (K ! k) = Inr out'" "out' ! zz = parity_sign k * (if k = 0 then v else 0)"
          unfolding quadric_const by blast
        with out show ?thesis by (auto simp: parity_sign_def)
      qed
      with out show "\<exists>out. sconvolve arr (K ! k) = Inr out \<and>
          (\<forall>zz. Z div 2 \<le> zz \<and> zz < Za - Z div 2 \<longrightarrow> out ! zz = (if k = 0 then v else 0))"
        by blast
    qed
    then obtain R where R: "coef_outputs K arr = Inr R" "length R = 10"
      "\<forall>k<10. \<forall>zz. Z div 2 \<le> zz \<and> zz < Za - Z div 2 \<longrightarrow> R ! k ! zz = (if k = 0 then v else 0)"
      by blast
    have "R ! 0 ! zz = v \<and> (\<forall>k. 1 \<le> k \<and> k < 10 \<longrightarrow> R ! k ! zz = 0)"
      if "Z div 2 \<le> zz \<and> zz < Za - Z div 2" for zz
      using R(3) that by auto
    with R(1,2) show ?thesis by blast
  qed
  from K id poly const show ?thesis by blast
qed

theorem lpa_kernels_exact_witness:
  "\<exists>K R. lpa3D_init 3 3 3 (1 / 5) = Inr K \<and>
          coef_outputs K \<lparr>shape3 = (3, 3, 5), data3 = (\<lambda>i j k. 2 + (real i - 1))\<rparr> = Inr R \<and>
          R ! 0 ! 2 = 2 \<and> R ! 1 ! 2 = - 1 \<and> R ! 4 ! 2 = 0"
proof -
  let ?arr = "\<lparr>shape3 = (3, 3, 5), data3 = (\<lambda>i j k. 2 + (real i - 1))\<rparr>"
  let ?c = "\<lambda>k. if k = (0::nat) then (2::real) else if k = 1 then 1 else 0"
  have t: "(3::nat) \<le> 3" by simp
  have r: "weights_in_range (int 3) (int 3) (int 3) (1 / 5)"
    by (rule weights_in_range_sufficient) simp_all
  from lpa_kernels_exact [OF t t t r] obtain K where
    K: "lpa3D_init (int 3) (int 3) (int 3) (1 / 5) = Inr K"
    and app: "\<And>arr Xa Ya Za c zz.
              shape3 arr = (Xa, Ya, Za) \<and> 3 \<le> Xa \<and> 3 \<le> Ya \<and> 3 div 2 \<le> zz \<and> zz < Za - 3 div 2 \<and>
              (\<forall>ii<3. \<forall>jj<3. \<forall>kk<3.
                  data3 arr (Xa div 2 - 3 div 2 + ii) (Ya div 2 - 3 div 2 + jj) (zz - 3 div 2 + kk) =
                  quadric c (real ii - (real 3 - 1) / 2) (real jj - (real 3 - 1) / 2)
                    (real kk - (real 3 - 1) / 2)) \<Longrightarrow>
              (\<exists>R. coef_outputs K arr = Inr R \<and> length R = 10 \<and>
                   (\<forall>k<10. R ! k ! zz = (if k = 1 \<or> k = 2 \<or> k = 3 then - c k else c k)))"
    by blast
  have "\<exists>R. coef_outputs K ?arr = Inr R \<and> length R = 10 \<and>
                   (\<forall>k<10. R ! k ! 2 = (if k = 1 \<or> k = 2 \<or> k = 3 then - ?c k else ?c k))"
    by (rule app [of ?arr 3 3 5 2 ?c]) (simp add: quadric_expand)
  then obtain R where R: "coef_outputs K ?arr = Inr R"
    "\<And>k. k < 10 \<Longrightarrow> R ! k ! 2 = (if k = 1 \<or> k = 2 \<or> k = 3 then - ?c k else ?c k)"
    by blast
  have "R ! 0 ! 2 = 2" "R ! 1 ! 2 = - 1" "R ! 4 ! 2 = 0"
    using R(2) [of 0] R(2) [of 1] R(2) [of 4] by simp_all
  with K R(1) show ?thesis by auto
qed

text \<open>
  Claim C1 as stated fails in two ways. A 2 by 3 by 3 window has 18 points, yet its normal
  matrix is singular and no kernel set is built. And for a 3 by 3 by 3 window the kernel of
  the coefficient of \<open>x\<close>, applied to a block that samples the polynomial \<open>x\<close>, returns
  \<open>- 1\<close> at the centre, not 1.
\<close>

theorem lpa_kernels_exact_counterexample:
  "lpa3D_init 2 3 3 (1 / 5) = Inl LinAlgError \<and>
   and_then (lpa3D_init 3 3 3 (1 / 5))
     (\<lambda>K. sconvolve \<lparr>shape3 = (3, 3, 3), data3 = (\<lambda>i j k. real i - 1)\<rparr> (K ! 1)) = Inr [0, - 1, 0]"
proof
  show "lpa3D_init 2 3 3 (1 / 5) = Inl LinAlgError"
    by (rule lpa3D_init_extent_two) simp_all
  let ?arr = "\<lparr>shape3 = (3, 3, 3), data3 = (\<lambda>i j k. real i - 1)\<rparr>"
  let ?c = "\<lambda>k. if k = (1::nat) then (1::real) else 0"
  have t: "(3::nat) \<le> 3" "(1 / 5 :: real) \<noteq> 0" by simp_all
  from lpa_kernels_apply [OF t(1) t(1) t(1) t(2)] obtain K where
    K: "lpa3D_init (int 3) (int 3) (int 3) (1 / 5) = Inr K"
    and sh: "\<forall>k<10. shape3 (K ! k) = (3, 3, 3)"
    and app: "\<And>arr Xa Ya Za c zz k.
              shape3 arr = (Xa, Ya, Za) \<and> 3 \<le> Xa \<and> 3 \<le> Ya \<and> 3 div 2 \<le> zz \<and> zz < Za - 3 div 2 \<and> k < 10 \<and>
              (\<forall>ii<3. \<forall>jj<3. \<forall>kk<3.
                  data3 arr (Xa div 2 - 3 div 2 + ii) (Ya div 2 - 3 div 2 + jj) (zz - 3 div 2 + kk) =
                  quadric c (real ii - (real 3 - 1) / 2) (real jj - (real 3 - 1) / 2)
                    (real kk - (real 3 - 1) / 2)) \<Longrightarrow>
              (\<exists>out. sconvolve arr (K ! k) = Inr out \<and> length out = Za \<and>
                     out ! zz = parity_sign k * c k)"
    by blast
  have "\<exists>out. sconvolve ?arr (K ! 1) = Inr out \<and> length out = 3 \<and> out ! 1 = parity_sign 1 * ?c 1"
    by (rule app [of ?arr 3 3 3 1 1 ?c]) (simp add: quadric_expand)
  then obtain out where out: "sconvolve ?arr (K ! 1) = Inr out" "length out = 3" "out ! 1 = - 1"
    by (auto simp: parity_sign_def)
  have s1: "shape3 (K ! 1) = (3, 3, 3)" using sh by simp
  have "\<forall>z<3. z < 3 div 2 \<or> 3 - 3 div 2 \<le> z \<longrightarrow> out ! z = 0"
    using sconvolve_frame [OF out(1) _ s1, of 3 3 3] by simp
  then have z: "\<And>z. z < 3 \<Longrightarrow> z < 3 div 2 \<or> 3 - 3 div 2 \<le> z \<Longrightarrow> out ! z = 0" by blast
  have "out ! 0 = 0" "out ! 2 = 0"
    using z [of 0] z [of 2] by simp_all
  with out(3) list3 [OF out(2)] have "out = [0, - 1, 0]" by simp
  with out(1) K show "and_then (lpa3D_init 3 3 3 (1 / 5)) (\<lambda>K. sconvolve ?arr (K ! 1)) = Inr [0, - 1, 0]"
    by simp
qed

text \<open>
  Claim C3, as the code behaves. The construction checks neither the weight factor nor the
  window. The weight factor enters through its square only, so a negative one gives the
  result of its absolute value; for extents of at least 3 that is a kernel set, as long as
  the squares, the divisors and the weights stay in the normal range of binary64. With
  positive extents, a weight factor of 0 or an extent of 1 makes the weights divide by zero
  before any inversion. A window of extents at least 2 with fewer than 10 points is the
  2 by 2 by 2 one; there, for a weight factor in that range, the inversion is attempted and
  fails with LinAlgError.
\<close>

theorem lpa3D_init_no_validation:
  "lpa3D_init xs ys zs (- sigma) = lpa3D_init xs ys zs sigma \<and>
   (1 \<le> xs \<and> 1 \<le> ys \<and> 1 \<le> zs \<and> (sigma = 0 \<or> xs = 1 \<or> ys = 1 \<or> zs = 1) \<longrightarrow>
      lpa3D_init xs ys zs sigma = Inl FloatingPointError) \<and>
   (2 \<le> xs \<and> 2 \<le> ys \<and> 2 \<le> zs \<and> xs * ys * zs < 10 \<and> weights_in_range xs ys zs sigma \<longrightarrow>
      lpa3D_init xs ys zs sigma = Inl LinAlgError) \<and>
   (3 \<le> xs \<and> 3 \<le> ys \<and> 3 \<le> zs \<and> sigma < 0 \<and> weights_in_range xs ys zs sigma \<longrightarrow>
      (\<exists>K. lpa3D_init xs ys zs sigma = Inr K))"
proof (intro conjI impI)
  show "lpa3D_init xs ys zs (- sigma) = lpa3D_init xs ys zs sigma"
    by (rule lpa3D_init_neg)
next
  assume a: "1 \<le> xs \<and> 1 \<le> ys \<and> 1 \<le> zs \<and> (sigma = 0 \<or> xs = 1 \<or> ys = 1 \<or> zs = 1)"
  then have p: "0 \<le> xs" "0 \<le> ys" "0 \<le> zs" by simp_all
  have c: "nat xs * nat ys * nat zs \<noteq> 0 \<and>
         (sigma * of_int (xs - 1) = 0 \<or> sigma * of_int (ys - 1) = 0 \<or> sigma * of_int (zs - 1) = 0)"
    using a by auto
  show "lpa3D_init xs ys zs sigma = Inl FloatingPointError"
    using lpa3D_init_stages [OF p, of sigma] unfolding if_P [OF c] .
next
  assume a: "2 \<le> xs \<and> 2 \<le> ys \<and> 2 \<le> zs \<and> xs * ys * zs < 10 \<and> weights_in_range xs ys zs sigma"
  then have nz: "sigma \<noteq> 0"
    using weights_in_range_nonzero [of xs ys zs sigma] by blast
  have "xs = 2"
  proof (rule ccontr)
    assume "xs \<noteq> 2"
    with a have "3 \<le> xs" by simp
    moreover have "4 \<le> ys * zs" using a mult_mono [of 2 ys 2 zs] by simp
    ultimately have "3 * 4 \<le> xs * (ys * zs)" using a by (intro mult_mono) simp_all
    with a show False by (simp add: mult.assoc)
  qed
  with a nz show "lpa3D_init xs ys zs sigma = Inl LinAlgError"
    using lpa3D_init_extent_two [of ys zs sigma] by simp
next
  assume a: "3 \<le> xs \<and> 3 \<le> ys \<and> 3 \<le> zs \<and> sigma < 0 \<and> weights_in_range xs ys zs sigma"
  then have "sigma \<noteq> 0" by simp
  with a lpa3D_init_total [of xs ys zs sigma] show "\<exists>K. lpa3D_init xs ys zs sigma = Inr K"
    by blast
qed

theorem lpa3D_init_no_validation_witness:
  "lpa3D_init 3 3 3 0 = Inl FloatingPointError \<and>
   lpa3D_init 2 2 2 (1 / 5) = Inl LinAlgError \<and>
   (\<exists>K. lpa3D_init 3 3 3 (- (1 / 5)) = Inr K)"
proof (intro conjI)
  have r2: "weights_in_range 2 2 2 (1 / 5)"
    by (rule weights_in_range_sufficient) simp_all
  have r3: "weights_in_range 3 3 3 (- (1 / 5))"
    by (rule weights_in_range_sufficient) simp_all
  show "lpa3D_init 3 3 3 0 = Inl FloatingPointError"
    using lpa3D_init_no_validation [of 3 3 3 0] by simp
  show "lpa3D_init 2 2 2 (1 / 5) = Inl LinAlgError"
    using lpa3D_init_no_validation [of 2 2 2 "1 / 5"] r2 by simp
  show "\<exists>K. lpa3D_init 3 3 3 (- (1 / 5)) = Inr K"
    using lpa3D_init_no_validation [of 3 3 3 "- (1 / 5)"] r3 by simp
qed

text \<open>
  Claim C3 as stated fails: the weight factor \<open>- 0.2\<close> raises nothing, and the 2 by 2 by 2
  window, of 8 points, fails in the inversion itself.
\<close>

theorem lpa3D_init_no_validation_counterexample:
  "\<not> isl (lpa3D_init 3 3 3 (- (1 / 5))) \<and> lpa3D_init 2 2 2 (1 / 5) = Inl LinAlgError"
proof
  have "\<exists>minv. linalg_inv (lpa_normal (grid_x (nat 3) (nat 3) (nat 3)) (grid_y (nat 3) (nat 3) (nat 3))
                     (grid_z (nat 3) (nat 3) (nat 3)) (grid_w (nat 3) (nat 3) (nat 3) (- (1 / 5)))) = Inr minv \<and>
           lpa3D_init 3 3 3 (- (1 / 5)) =
             Inr (reshape_kernels (lpa_deconv (grid_x (nat 3) (nat 3) (nat 3)) (grid_y (nat 3) (nat 3) (nat 3))
                     (grid_z (nat 3) (nat 3) (nat 3)) (grid_w (nat 3) (nat 3) (nat 3) (- (1 / 5))) minv)
                   (nat 3) (nat 3) (nat 3))"
    by (rule lpa3D_init_total) simp_all
  then have "\<exists>K. lpa3D_init 3 3 3 (- (1 / 5)) = Inr K" by blast
  then show "\<not> isl (lpa3D_init 3 3 3 (- (1 / 5)))" by auto
  show "lpa3D_init 2 2 2 (1 / 5) = Inl LinAlgError"
    by (rule lpa3D_init_extent_two) simp_all
qed

end
